theory Spec2Isabelle
  imports Main "HOL-Library.Multiset"
begin

section \<open>Object-reference extractor\<close>

text \<open>
  \<open>get_referenced_sha1\<close> receives an object decoded by the dulwich library. The library
  has four object classes (commit, tree, blob, tag); the function tests for the first
  three with \<open>isinstance\<close> and sends everything else to the \<open>else\<close> branch, which prints
  an error and calls \<open>sys.exit(1)\<close>. Object ids are hexadecimal byte strings; \<open>decode()\<close>
  turns them into text without changing the characters, so both are \<open>string\<close> here.
\<close>

record tree_entry =
  entry_path :: string
  entry_mode :: nat
  entry_sha :: string

datatype git_object =
    Commit (commit_tree: string) (commit_parents: "string list")
  | Tree (tree_items: "tree_entry list")
  | Blob (blob_data: string)
  | Tag (tag_target: string)

datatype exit_error = UnexpectedObjectType git_object

fun get_referenced_sha1 :: "git_object \<Rightarrow> exit_error + string list" where
  "get_referenced_sha1 (Commit tree parents) = Inr ([tree] @ parents)"
| "get_referenced_sha1 (Tree items) = Inr (map entry_sha items)"
| "get_referenced_sha1 (Blob content) = Inr []"
| "get_referenced_sha1 obj = Inl (UnexpectedObjectType obj)"

section \<open>Strings\<close>

text \<open>Python's \<open>str.startswith\<close>, \<open>str.endswith\<close> and the substring test \<open>p in s\<close>.\<close>

definition startswith :: "string \<Rightarrow> string \<Rightarrow> bool" where
  "startswith s p = (take (length p) s = p)"

definition endswith :: "string \<Rightarrow> string \<Rightarrow> bool" where
  "endswith s p = (length p \<le> length s \<and> drop (length s - length p) s = p)"

fun contains :: "string \<Rightarrow> string \<Rightarrow> bool" where
  "contains [] p = (p = [])"
| "contains (c # cs) p = (startswith (c # cs) p \<or> contains cs p)"

section \<open>HTML directory-listing parser\<close>

text \<open>
  \<open>get_indexed_files\<close> relies on two libraries that are not part of the repository:
  BeautifulSoup, which yields the anchors of the page, and \<open>urllib.parse.urlparse\<close>. Both
  are parameters of the model. \<open>anchor_hrefs\<close> stands for
  \<open>[link.get('href') for link in html.find_all('a')]\<close>: the \<open>href\<close> attribute of every
  anchor in document order, \<open>None\<close> where the anchor has none. \<open>urlparse\<close> returns the
  parsed URL, of which the function reads the scheme, the host and the path.
\<close>

record parsed_url =
  scheme :: string
  netloc :: string
  path :: string

record response =
  status_code :: int
  headers :: "string \<rightharpoonup> string"
  resp_text :: string

record html_lib =
  anchor_hrefs :: "string \<Rightarrow> string option list"
  urlparse :: "string option \<Rightarrow> parsed_url"

definition is_html :: "response \<Rightarrow> bool" where
  "is_html response = contains (resp_text response) ''<html>''"

text \<open>The loop over the anchors: \<open>files.append(url.path)\<close> under the six-fold test.\<close>

fun indexed_links :: "(string option \<Rightarrow> parsed_url) \<Rightarrow> string option list \<Rightarrow> string list" where
  "indexed_links parse [] = []"
| "indexed_links parse (href # links) =
     (let url = parse href in
      if path url \<noteq> [] \<and> path url \<noteq> ''.'' \<and> path url \<noteq> ''..''
         \<and> \<not> startswith (path url) ''/'' \<and> scheme url = [] \<and> netloc url = []
      then path url # indexed_links parse links
      else indexed_links parse links)"

definition get_indexed_files :: "html_lib \<Rightarrow> response \<Rightarrow> string list" where
  "get_indexed_files lib response =
     indexed_links (urlparse lib) (anchor_hrefs lib (resp_text response))"

text \<open>
  Example data: a listing page with five anchors, and a stand-in for \<open>urlparse\<close> that
  knows \<open>http://\<close> URLs and takes everything else for a path.
\<close>

definition example_urlparse :: "string option \<Rightarrow> parsed_url" where
  "example_urlparse href =
     (case href of
        None \<Rightarrow> \<lparr>scheme = [], netloc = [], path = []\<rparr>
      | Some u \<Rightarrow>
          if startswith u ''http://'' then \<lparr>scheme = ''http'', netloc = drop 7 u, path = []\<rparr>
          else \<lparr>scheme = [], netloc = [], path = u\<rparr>)"

definition example_lib :: html_lib where
  "example_lib =
     \<lparr>anchor_hrefs = (\<lambda>html. [Some ''..'', Some ''HEAD'', None, Some ''/icons/'',
                               Some ''http://example.org'', Some ''refs/'']),
      urlparse = example_urlparse\<rparr>"

definition example_page :: response where
  "example_page = \<lparr>status_code = 200, headers = Map.empty, resp_text = ''<html></html>''\<rparr>"

section \<open>Worker pool\<close>

text \<open>
  A worker class supplies \<open>init\<close> and \<open>do_task\<close>. Both act on the world shared by the
  processes (the disk, the remote server). \<open>do_task\<close> returns the list of follow-up tasks,
  or \<open>None\<close> when the worker process dies in it (an exception, a failed assertion,
  \<open>sys.exit\<close>): then nothing is put on the result queue.
\<close>

record ('t, 'w) worker =
  init :: "'w \<Rightarrow> 'w"
  do_task :: "'t \<Rightarrow> 'w \<Rightarrow> 't list option \<times> 'w"

text \<open>
  The state of \<open>process_tasks\<close>. \<open>tasks_seen\<close> and \<open>num_pending_tasks\<close> are the local
  variables of that name. \<open>pending_tasks\<close> holds the tasks put on the pending queue whose
  worker has not finished yet, oldest first. \<open>started\<close> and \<open>alive\<close> count the worker
  processes launched and still running. \<open>enqueued\<close> and \<open>executed\<close> are logs kept for the
  statements below: every task passed to \<open>pending_tasks.put\<close>, and every task a worker
  ran \<open>do_task\<close> on, in order.
\<close>

record ('t, 'w) pool =
  tasks_seen :: "'t set"
  pending_tasks :: "'t list"
  num_pending_tasks :: nat
  started :: nat
  alive :: nat
  enqueued :: "'t list"
  executed :: "'t list"
  world :: 'w

datatype ('t, 'w) outcome =
    Returned "('t, 'w) pool"
  | Blocked "('t, 'w) pool"
  | Running "('t, 'w) pool"

fun state_of :: "('t, 'w) outcome \<Rightarrow> ('t, 'w) pool" where
  "state_of (Returned s) = s"
| "state_of (Blocked s) = s"
| "state_of (Running s) = s"

definition empty_pool :: "'w \<Rightarrow> ('t, 'w) pool" where
  "empty_pool w = \<lparr>tasks_seen = {}, pending_tasks = [], num_pending_tasks = 0, started = 0,
     alive = 0, enqueued = [], executed = [], world = w\<rparr>"

text \<open>
  The body of both \<open>for task in ...\<close> loops: a task not seen before is put on the pending
  queue, counted, and added to \<open>tasks_seen\<close>.
\<close>

definition enqueue :: "'t \<Rightarrow> ('t, 'w) pool \<Rightarrow> ('t, 'w) pool" where
  "enqueue task s =
     (if task \<notin> tasks_seen s
      then s\<lparr>pending_tasks := pending_tasks s @ [task],
             enqueued := enqueued s @ [task],
             num_pending_tasks := num_pending_tasks s + 1,
             tasks_seen := insert task (tasks_seen s)\<rparr>
      else s)"

text \<open>
  The workers run in parallel; the model serialises them. The pending queue is first in,
  first out, so the tasks in the hands of the workers are the first \<open>alive\<close> entries of
  \<open>pending_tasks\<close>. In each round \<open>sched\<close> picks which of them finishes next; its
  \<open>do_task\<close> takes effect as a whole at that point. If it returns a list, the
  orchestrator receives it (\<open>tasks_done.get\<close>), decrements the counter and enqueues the
  unseen follow-ups. If the worker dies, no result arrives and one process fewer serves
  the queue. \<open>tasks_done.get(block=True)\<close> never returns once no task is in the hands of
  a live worker: \<open>Blocked\<close>. The first argument bounds the number of rounds; \<open>Running\<close>
  is the state reached when the bound is used up with work outstanding.
\<close>

fun collect :: "nat \<Rightarrow> ('t, 'w) worker \<Rightarrow> (nat \<Rightarrow> nat) \<Rightarrow> nat \<Rightarrow> ('t, 'w) pool \<Rightarrow> ('t, 'w) outcome" where
  "collect 0 W sched n s = (if num_pending_tasks s > 0 then Running s else Returned s)"
| "collect (Suc fuel) W sched n s =
     (if num_pending_tasks s > 0 then
        (if alive s = 0 \<or> pending_tasks s = [] then Blocked s
         else
           let i = sched n mod min (alive s) (length (pending_tasks s));
               task = pending_tasks s ! i;
               (result, w) = do_task W task (world s);
               s1 = s\<lparr>pending_tasks := take i (pending_tasks s) @ drop (Suc i) (pending_tasks s),
                      executed := executed s @ [task],
                      world := w\<rparr>
           in case result of
                None \<Rightarrow> collect fuel W sched (Suc n) (s1\<lparr>alive := alive s - 1\<rparr>)
              | Some task_result \<Rightarrow>
                  collect fuel W sched (Suc n)
                    (fold enqueue task_result (s1\<lparr>num_pending_tasks := num_pending_tasks s - 1\<rparr>)))
      else Returned s)"

text \<open>
  \<open>process_tasks\<close>: nothing happens for an empty task list. Otherwise the seen set
  starts as \<open>tasks_done\<close> (empty when the argument is omitted), the initial tasks are
  enqueued, \<open>jobs\<close> processes are created and started (each runs \<open>init\<close> first), and results
  are collected until the counter is zero. Then every process receives the end signal
  and is joined.
\<close>

definition launch :: "('t, 'w) worker \<Rightarrow> nat \<Rightarrow> ('t, 'w) pool \<Rightarrow> ('t, 'w) pool" where
  "launch W jobs s = s\<lparr>started := jobs, alive := jobs, world := (init W ^^ jobs) (world s)\<rparr>"

definition process_tasks ::
  "nat \<Rightarrow> ('t, 'w) worker \<Rightarrow> nat \<Rightarrow> (nat \<Rightarrow> nat) \<Rightarrow> 't list \<Rightarrow> 't set \<Rightarrow> 'w \<Rightarrow> ('t, 'w) outcome" where
  "process_tasks fuel W jobs sched initial_tasks tasks_done w =
     (if initial_tasks = [] then Returned (empty_pool w)
      else
        case collect fuel W sched 0
               (launch W jobs (fold enqueue initial_tasks ((empty_pool w)\<lparr>tasks_seen := tasks_done\<rparr>)))
        of Returned s \<Rightarrow> Returned (s\<lparr>alive := 0\<rparr>)
         | other \<Rightarrow> other)"

text \<open>
  The closure the specification speaks of: the tasks reachable from the seeds through
  follow-ups. \<open>reach_avoiding\<close> is the part of it reached without passing through a task
  of the set \<open>D\<close>.
\<close>

inductive_set reach :: "('t \<Rightarrow> 't list) \<Rightarrow> 't set \<Rightarrow> 't set" for f :: "'t \<Rightarrow> 't list" and S :: "'t set" where
  seed: "t \<in> S \<Longrightarrow> t \<in> reach f S"
| follow: "t \<in> reach f S \<Longrightarrow> u \<in> set (f t) \<Longrightarrow> u \<in> reach f S"

inductive_set reach_avoiding :: "('t \<Rightarrow> 't list) \<Rightarrow> 't set \<Rightarrow> 't set \<Rightarrow> 't set"
  for f :: "'t \<Rightarrow> 't list" and D :: "'t set" and S :: "'t set" where
  seed: "t \<in> S \<Longrightarrow> t \<notin> D \<Longrightarrow> t \<in> reach_avoiding f D S"
| follow: "t \<in> reach_avoiding f D S \<Longrightarrow> u \<in> set (f t) \<Longrightarrow> u \<notin> D \<Longrightarrow> u \<in> reach_avoiding f D S"

text \<open>A worker without effects whose follow-ups are given by a function.\<close>

definition pure_worker :: "('t \<Rightarrow> 't list) \<Rightarrow> ('t, 'w) worker" where
  "pure_worker f = \<lparr>init = (\<lambda>w. w), do_task = (\<lambda>t w. (Some (f t), w))\<rparr>"

text \<open>
  What holds of the pool at every moment, whatever the workers return: \<open>D\<close> is the
  \<open>tasks_done\<close> argument.
\<close>

definition pool_inv :: "'t set \<Rightarrow> ('t, 'w) pool \<Rightarrow> bool" where
  "pool_inv D s =
     (distinct (enqueued s) \<and> tasks_seen s = D \<union> set (enqueued s) \<and> set (enqueued s) \<inter> D = {}
      \<and> mset (enqueued s) = mset (executed s) + mset (pending_tasks s))"

text \<open>
  What holds in addition when no worker dies and the follow-ups of a task are \<open>f task\<close>:
  the counter is the number of unfinished tasks, every enqueued task lies in the closure
  of the seeds \<open>S\<close>, the seeds have been seen, and so have the follow-ups of every
  executed task.
\<close>

definition closure_inv :: "('t \<Rightarrow> 't list) \<Rightarrow> 't set \<Rightarrow> 't set \<Rightarrow> ('t, 'w) pool \<Rightarrow> bool" where
  "closure_inv f D S s =
     (pool_inv D s \<and> num_pending_tasks s = length (pending_tasks s)
      \<and> set (enqueued s) \<subseteq> reach_avoiding f D S \<and> S \<subseteq> tasks_seen s
      \<and> (\<forall>t \<in> set (executed s). set (f t) \<subseteq> tasks_seen s))"

text \<open>
  Concrete data for the examples below: three tasks in a chain, \<open>0\<close> followed by \<open>1\<close>
  followed by \<open>2\<close>, and the schedule in which the oldest task always finishes first.
\<close>

definition chain_follow :: "nat \<Rightarrow> nat list" where
  "chain_follow t = (if t = 0 then [1] else if t = 1 then [2] else [])"

definition fifo :: "nat \<Rightarrow> nat" where
  "fifo n = 0"

section \<open>The world of a run: disk, remote server, console\<close>

text \<open>
  The effects of the program are made explicit as changes to a \<open>world\<close>. The disk is a
  map from absolute paths to file contents together with the set of directories;
  writing is taken to succeed (no permissions, no full disk). \<open>requests\<close> records the URL of
  every HTTP GET sent so far, oldest first; \<open>sessions\<close> counts the sessions created by
  \<open>DownloadWorker.init\<close>; \<open>slept\<close> is the number of seconds asked of \<open>time.sleep\<close>;
  \<open>stdout\<close> and \<open>stderr\<close> hold what \<open>printf\<close> wrote. Bytes and text are both \<open>string\<close>.
\<close>

record world =
  files :: "string \<rightharpoonup> string"
  dirs :: "string set"
  requests :: "string list"
  sessions :: nat
  slept :: nat
  stdout :: "string list"
  stderr :: "string list"

text \<open>
  The arguments shared by every worker (\<open>url\<close>, \<open>directory\<close>, \<open>retry\<close>, \<open>timeout\<close>) and
  what lies outside the repository. \<open>abspath_join directory filepath\<close> stands for
  \<open>os.path.abspath(os.path.join(directory, filepath))\<close>. \<open>server\<close> is the remote side: its
  answer to a GET may depend on the URL and on every request received before.
  \<open>from_path\<close> is dulwich's decoder of a loose object file, \<open>None\<close> when it raises.
  \<open>find_objects\<close> stands for the part of \<open>fetch_git\<close> that collects object ids from the
  files on disk (through \<open>os.walk\<close> and dulwich's index and pack readers); it sends no
  request and writes no file.
\<close>

record env =
  url :: string
  directory :: string
  retry :: nat
  timeout :: nat
  abspath_join :: "string \<Rightarrow> string \<Rightarrow> string"
  server :: "string list \<Rightarrow> string \<Rightarrow> response"
  html :: html_lib
  from_path :: "string \<Rightarrow> git_object option"
  find_objects :: "world \<Rightarrow> string list \<times> string set"

text \<open>The \<open>%d\<close> conversion of \<open>printf\<close>.\<close>

definition digit :: "nat \<Rightarrow> char" where
  "digit n = ''0123456789'' ! n"

function str_nat :: "nat \<Rightarrow> string" where
  "str_nat n = (if n < 10 then [digit n] else str_nat (n div 10) @ [digit (n mod 10)])"
  by pat_completeness auto
termination
  by (relation "measure (\<lambda>n. n)") auto

definition str_int :: "int \<Rightarrow> string" where
  "str_int i = (if i < 0 then ''-'' @ str_nat (nat (- i)) else str_nat (nat i))"

definition printf :: "string \<Rightarrow> world \<Rightarrow> world" where
  "printf line w = w\<lparr>stdout := stdout w @ [line]\<rparr>"

definition printf_stderr :: "string \<Rightarrow> world \<Rightarrow> world" where
  "printf_stderr line w = w\<lparr>stderr := stderr w @ [line]\<rparr>"

definition fetching_line :: "nat \<Rightarrow> string \<Rightarrow> string \<Rightarrow> int \<Rightarrow> string" where
  "fetching_line cnt u filepath status =
     ''['' @ str_nat cnt @ ''] Fetching '' @ u @ ''/'' @ filepath @ '' ['' @ str_int status @ '']\<newline>''"

definition already_fetched_line :: "string \<Rightarrow> string \<Rightarrow> string" where
  "already_fetched_line u filepath = ''[-] File '' @ u @ ''/'' @ filepath @ '' already fetched\<newline>''"

text \<open>\<open>session.get\<close> and \<open>requests.get\<close>: the request is recorded and the server answers.\<close>

definition http_get :: "env \<Rightarrow> string \<Rightarrow> world \<Rightarrow> response \<times> world" where
  "http_get E u w = (server E (requests w) u, w\<lparr>requests := requests w @ [u]\<rparr>)"

definition sleep :: "nat \<Rightarrow> world \<Rightarrow> world" where
  "sleep seconds w = w\<lparr>slept := slept w + seconds\<rparr>"

text \<open>\<open>DownloadWorker.init\<close> creates a fresh session.\<close>

definition session_init :: "world \<Rightarrow> world" where
  "session_init w = w\<lparr>sessions := sessions w + 1\<rparr>"

text \<open>\<open>os.path.exists\<close>, \<open>os.path.split\<close> (POSIX) and \<open>os.makedirs\<close>.\<close>

definition path_exists :: "world \<Rightarrow> string \<Rightarrow> bool" where
  "path_exists w p = (p \<in> dom (files w) \<or> p \<in> dirs w)"

definition rstrip_slash :: "string \<Rightarrow> string" where
  "rstrip_slash s = rev (dropWhile (\<lambda>c. c = CHR ''/'') (rev s))"

definition split_path :: "string \<Rightarrow> string \<times> string" where
  "split_path p =
     (let tail = rev (takeWhile (\<lambda>c. c \<noteq> CHR ''/'') (rev p));
          head = take (length p - length tail) p
      in (if head \<noteq> [] \<and> rstrip_slash head \<noteq> [] then rstrip_slash head else head, tail))"

definition makedirs :: "string \<Rightarrow> world \<Rightarrow> world" where
  "makedirs name w =
     w\<lparr>dirs := dirs w \<union> {name}
                \<union> set (map (\<lambda>i. take i name) (filter (\<lambda>i. name ! i = CHR ''/'') [1..<length name]))\<rparr>"

definition create_intermediate_dirs :: "string \<Rightarrow> world \<Rightarrow> world" where
  "create_intermediate_dirs p w =
     (let (dirname, basename) = split_path p
      in if dirname \<noteq> [] \<and> \<not> path_exists w dirname then makedirs dirname w else w)"

definition write_file :: "string \<Rightarrow> string \<Rightarrow> world \<Rightarrow> world" where
  "write_file p data w = w\<lparr>files := (files w)(p \<mapsto> data)\<rparr>"

section \<open>The four workers\<close>

text \<open>
  \<open>DownloadWorker.do_task\<close>. The \<open>while (count < 5)\<close> loop is a recursive function of the
  counter; \<open>continue\<close> is the recursive call and every \<open>return\<close> ends it.
\<close>

function download_loop :: "env \<Rightarrow> string \<Rightarrow> string \<Rightarrow> nat \<Rightarrow> world \<Rightarrow> string list option \<times> world" where
  "download_loop E filepath abspath cnt w =
     (if cnt < 5 then
        let cnt = cnt + 1;
            (response, w) = http_get E (url E @ ''/'' @ filepath) w;
            w = printf (fetching_line cnt (url E) filepath (status_code response)) w
        in if status_code response = 403
           then download_loop E filepath abspath cnt (sleep 10 (session_init w))
           else if status_code response \<noteq> 200 then (Some [], w)
           else (Some [], write_file abspath (resp_text response) (create_intermediate_dirs abspath w))
      else (Some [], w))"
  by pat_completeness auto
termination
  by (relation "measure (\<lambda>(E, filepath, abspath, cnt, w). 5 - cnt)") auto

definition download_do_task :: "env \<Rightarrow> string \<Rightarrow> world \<Rightarrow> string list option \<times> world" where
  "download_do_task E filepath w =
     (let abspath = abspath_join E (directory E) filepath
      in if path_exists w abspath
         then (Some [], printf (already_fetched_line (url E) filepath) w)
         else download_loop E filepath abspath 0 w)"

text \<open>
  \<open>RecursiveDownloadWorker.do_task\<close>. The response headers are looked up under the name
  \<open>Location\<close>. A failed \<open>assert is_html(response)\<close> kills the worker process.
\<close>

function recursive_loop :: "env \<Rightarrow> string \<Rightarrow> string \<Rightarrow> nat \<Rightarrow> world \<Rightarrow> string list option \<times> world" where
  "recursive_loop E filepath abspath cnt w =
     (if cnt < 5 then
        let cnt = cnt + 1;
            (response, w) = http_get E (url E @ ''/'' @ filepath) w;
            w = printf (fetching_line cnt (url E) filepath (status_code response)) w
        in if (status_code response = 301 \<or> status_code response = 302)
              \<and> (case headers response ''Location'' of
                    None \<Rightarrow> False
                  | Some location \<Rightarrow> endswith location (filepath @ ''/''))
           then (Some [filepath @ ''/''], w)
           else if status_code response = 403
           then recursive_loop E filepath abspath cnt (sleep 10 (session_init w))
           else if status_code response \<noteq> 200 then (Some [], w)
           else if endswith filepath ''/''
           then (if is_html response
                 then (Some (map (\<lambda>filename. filepath @ filename) (get_indexed_files (html E) response)), w)
                 else (None, w))
           else (Some [], write_file abspath (resp_text response) (create_intermediate_dirs abspath w))
      else (Some [], w))"
  by pat_completeness auto
termination
  by (relation "measure (\<lambda>(E, filepath, abspath, cnt, w). 5 - cnt)") auto

definition recursive_do_task :: "env \<Rightarrow> string \<Rightarrow> world \<Rightarrow> string list option \<times> world" where
  "recursive_do_task E filepath w =
     (let abspath = abspath_join E (directory E) filepath
      in if \<not> endswith filepath ''/'' \<and> path_exists w abspath
         then (Some [], printf (already_fetched_line (url E) filepath) w)
         else recursive_loop E filepath abspath 0 w)"

text \<open>
  The retry loop shared, word for word, by \<open>FindRefsWorker\<close> and \<open>FindObjectsWorker\<close>:
  \<open>continue\<close> after a 403, \<open>break\<close> otherwise. Its result is the variable \<open>response\<close> as
  the loop leaves it (unbound, \<open>None\<close>, before the first request).
\<close>

function fetch_loop :: "env \<Rightarrow> string \<Rightarrow> nat \<Rightarrow> response option \<Rightarrow> world \<Rightarrow> response option \<times> world" where
  "fetch_loop E filepath cnt resp w =
     (if cnt < 5 then
        let cnt = cnt + 1;
            (response, w) = http_get E (url E @ ''/'' @ filepath) w;
            w = printf (fetching_line cnt (url E) filepath (status_code response)) w
        in if status_code response = 403
           then fetch_loop E filepath cnt (Some response) (sleep 10 (session_init w))
           else (Some response, w)
      else (resp, w))"
  by pat_completeness auto
termination
  by (relation "measure (\<lambda>(E, filepath, cnt, resp, w). 5 - cnt)") auto

text \<open>
  The regular expression \<open>refs(/[a-zA-Z0-9\-\.\_\*]+)+\<close> as \<open>re.findall\<close> applies it: the
  text is scanned from the left; where a match starts it is taken as long as possible
  and the scan goes on behind it. \<open>ref_groups s\<close> is the longest prefix of \<open>s\<close> made of
  groups \<open>/[...]+\<close>. Of each match the code keeps the outer group, the whole match.
\<close>

definition ref_char :: "char \<Rightarrow> bool" where
  "ref_char c =
     (c \<in> set (''abcdefghijklmnopqrstuvwxyz'' @ ''ABCDEFGHIJKLMNOPQRSTUVWXYZ'' @ ''0123456789''
                @ ''-._*''))"

function ref_groups :: "string \<Rightarrow> string" where
  "ref_groups s =
     (case s of
        [] \<Rightarrow> []
      | c # rest \<Rightarrow>
          if c = CHR ''/'' \<and> takeWhile ref_char rest \<noteq> []
          then (c # takeWhile ref_char rest) @ ref_groups (dropWhile ref_char rest)
          else [])"
  by pat_completeness auto
termination
  by (relation "measure length") (auto simp: length_dropWhile_le less_Suc_eq_le)

function findall_refs :: "string \<Rightarrow> string list" where
  "findall_refs s =
     (case s of
        [] \<Rightarrow> []
      | c # rest \<Rightarrow>
          if startswith s ''refs'' \<and> ref_groups (drop 4 s) \<noteq> []
          then (''refs'' @ ref_groups (drop 4 s))
                 # findall_refs (drop (4 + length (ref_groups (drop 4 s))) s)
          else findall_refs rest)"
  by pat_completeness auto
termination
  by (relation "measure length") auto

text \<open>The loop \<open>for ref in re.findall(...)\<close> at the end of \<open>FindRefsWorker.do_task\<close>.\<close>

fun ref_tasks :: "string list \<Rightarrow> string list" where
  "ref_tasks [] = []"
| "ref_tasks (ref # refs) =
     (if \<not> endswith ref ''*''
      then [''.git/'' @ ref, ''.git/logs/'' @ ref] @ ref_tasks refs
      else ref_tasks refs)"

text \<open>
  \<open>FindRefsWorker.do_task\<close>. Reading a path that exists but is not a regular file raises
  in \<open>open\<close>, which kills the worker process.
\<close>

definition find_refs_do_task :: "env \<Rightarrow> string \<Rightarrow> world \<Rightarrow> string list option \<times> world" where
  "find_refs_do_task E filepath w =
     (let abspath = abspath_join E (directory E) filepath
      in if path_exists w abspath
         then
           (let w = printf (already_fetched_line (url E) filepath) w
            in case files w abspath of
                 None \<Rightarrow> (None, w)
               | Some response_text \<Rightarrow> (Some (ref_tasks (findall_refs response_text)), w))
         else
           (let (resp, w) = fetch_loop E filepath 0 None w
            in case resp of
                 None \<Rightarrow> (None, w)
               | Some response \<Rightarrow>
                   if status_code response \<noteq> 200 then (Some [], w)
                   else
                     (let w = write_file abspath (resp_text response)
                                (create_intermediate_dirs abspath w)
                      in (Some (ref_tasks (findall_refs (resp_text response))), w))))"

text \<open>
  \<open>FindObjectsWorker.do_task\<close>. \<open>parse_object\<close> is its resp two statements: decode the
  object file and extract its references; the process dies when the decoder raises or
  when \<open>get_referenced_sha1\<close> exits.
\<close>

definition parse_object :: "env \<Rightarrow> string \<Rightarrow> world \<Rightarrow> string list option \<times> world" where
  "parse_object E abspath w =
     (case files w abspath of
        None \<Rightarrow> (None, w)
      | Some data \<Rightarrow>
          (case from_path E data of
             None \<Rightarrow> (None, w)
           | Some obj_file \<Rightarrow>
               (case get_referenced_sha1 obj_file of
                  Inl err \<Rightarrow> (None, printf_stderr ''error: unexpected object type\<newline>'' w)
                | Inr objs \<Rightarrow> (Some objs, w))))"

definition find_objects_do_task :: "env \<Rightarrow> string \<Rightarrow> world \<Rightarrow> string list option \<times> world" where
  "find_objects_do_task E obj w =
     (let filepath = ''.git/objects/'' @ take 2 obj @ ''/'' @ drop 2 obj;
          abspath = abspath_join E (directory E) filepath
      in if path_exists w abspath
         then parse_object E abspath (printf (already_fetched_line (url E) filepath) w)
         else
           (let (resp, w) = fetch_loop E filepath 0 None w
            in case resp of
                 None \<Rightarrow> (None, w)
               | Some response \<Rightarrow>
                   if status_code response \<noteq> 200 then (Some [], w)
                   else parse_object E abspath
                          (write_file abspath (resp_text response)
                             (create_intermediate_dirs abspath w))))"

text \<open>The worker classes as values: all four inherit \<open>init\<close> from \<open>DownloadWorker\<close>.\<close>

datatype worker_kind = DownloadWorker | RecursiveDownloadWorker | FindRefsWorker | FindObjectsWorker

fun worker_of :: "worker_kind \<Rightarrow> env \<Rightarrow> (string, world) worker" where
  "worker_of DownloadWorker E = \<lparr>init = session_init, do_task = download_do_task E\<rparr>"
| "worker_of RecursiveDownloadWorker E = \<lparr>init = session_init, do_task = recursive_do_task E\<rparr>"
| "worker_of FindRefsWorker E = \<lparr>init = session_init, do_task = find_refs_do_task E\<rparr>"
| "worker_of FindObjectsWorker E = \<lparr>init = session_init, do_task = find_objects_do_task E\<rparr>"

text \<open>The path on the server and on disk that a task of each kind stands for.\<close>

fun task_path :: "worker_kind \<Rightarrow> string \<Rightarrow> string" where
  "task_path FindObjectsWorker obj = ''.git/objects/'' @ take 2 obj @ ''/'' @ drop 2 obj"
| "task_path kind filepath = filepath"

declare download_loop.simps [simp del]
declare recursive_loop.simps [simp del]
declare fetch_loop.simps [simp del]
declare ref_groups.simps [simp del]
declare findall_refs.simps [simp del]

section \<open>The orchestrator\<close>

text \<open>
  \<open>url_get\<close>: up to five requests outside any session, ten seconds of sleep after each
  403. The result is the variable \<open>response\<close> as the loop leaves it.
\<close>

function url_get_loop :: "env \<Rightarrow> string \<Rightarrow> nat \<Rightarrow> response option \<Rightarrow> world \<Rightarrow> response option \<times> world" where
  "url_get_loop E u cnt resp w =
     (if cnt < 5 then
        let cnt = cnt + 1;
            w = printf (''[-] Testing '' @ u @ '' '') w;
            (response, w) = http_get E u w;
            w = printf (''['' @ str_int (status_code response) @ '']\<newline>'') w
        in if status_code response = 403
           then url_get_loop E u cnt (Some response) (sleep 10 w)
           else (Some response, w)
      else (resp, w))"
  by pat_completeness auto
termination
  by (relation "measure (\<lambda>(E, u, cnt, resp, w). 5 - cnt)") auto

declare url_get_loop.simps [simp del]

definition url_get :: "env \<Rightarrow> string \<Rightarrow> world \<Rightarrow> response option \<times> world" where
  "url_get E u w = url_get_loop E u 0 None w"

text \<open>The three \<open>rstrip\<close>/\<open>endswith\<close> steps that find the base URL.\<close>

definition base_url :: "string \<Rightarrow> string" where
  "base_url u0 =
     (let u = rstrip_slash u0;
          u = (if endswith u ''HEAD'' then take (length u - 4) u else u);
          u = rstrip_slash u;
          u = (if endswith u ''.git'' then take (length u - 4) u else u)
      in rstrip_slash u)"

text \<open>The regular expression \<open>pack-([a-f0-9]{40})\.pack\<close> under \<open>re.findall\<close>.\<close>

definition hex_char :: "char \<Rightarrow> bool" where
  "hex_char c = (c \<in> set ''abcdef0123456789'')"

function findall_packs :: "string \<Rightarrow> string list" where
  "findall_packs s =
     (case s of
        [] \<Rightarrow> []
      | c # rest \<Rightarrow>
          if startswith s ''pack-'' \<and> length (take 40 (drop 5 s)) = 40
             \<and> list_all hex_char (take 40 (drop 5 s)) \<and> startswith (drop 45 s) ''.pack''
          then take 40 (drop 5 s) # findall_packs (drop 50 s)
          else findall_packs rest)"
  by pat_completeness auto
termination
  by (relation "measure length") auto

declare findall_packs.simps [simp del]

fun pack_tasks :: "string list \<Rightarrow> string list" where
  "pack_tasks [] = []"
| "pack_tasks (sha1 # rest) =
     [''.git/objects/pack/pack-'' @ sha1 @ ''.idx'', ''.git/objects/pack/pack-'' @ sha1 @ ''.pack'']
       @ pack_tasks rest"

definition common_files :: "string list" where
  "common_files =
     [''.gitignore'', ''.git/COMMIT_EDITMSG'', ''.git/description'',
      ''.git/hooks/applypatch-msg.sample'', ''.git/hooks/applypatch-msg.sample'',
      ''.git/hooks/applypatch-msg.sample'', ''.git/hooks/commit-msg.sample'',
      ''.git/hooks/post-commit.sample'', ''.git/hooks/post-receive.sample'',
      ''.git/hooks/post-update.sample'', ''.git/hooks/pre-applypatch.sample'',
      ''.git/hooks/pre-commit.sample'', ''.git/hooks/pre-push.sample'',
      ''.git/hooks/pre-rebase.sample'', ''.git/hooks/pre-receive.sample'',
      ''.git/hooks/prepare-commit-msg.sample'', ''.git/hooks/update.sample'', ''.git/index'',
      ''.git/info/exclude'', ''.git/objects/info/packs'']"

definition ref_files :: "string list" where
  "ref_files =
     [''.git/FETCH_HEAD'', ''.git/HEAD'', ''.git/ORIG_HEAD'', ''.git/config'', ''.git/info/refs'',
      ''.git/logs/HEAD'', ''.git/logs/refs/heads/master'', ''.git/logs/refs/remotes/origin/HEAD'',
      ''.git/logs/refs/remotes/origin/master'', ''.git/logs/refs/stash'', ''.git/packed-refs'',
      ''.git/refs/heads/master'', ''.git/refs/remotes/origin/HEAD'',
      ''.git/refs/remotes/origin/master'', ''.git/refs/stash'',
      ''.git/refs/wip/wtree/refs/heads/master'', ''.git/refs/wip/index/refs/heads/master'']"

text \<open>
  How a call of \<open>fetch_git\<close> ends: it returns an exit status, an exception is raised
  (a failed assertion among them), or it never returns because a worker pool does not
  (or has not within the bound on rounds).
\<close>

datatype ending = Exit int | Raised string | NoReturn

text \<open>One call of \<open>process_tasks\<close> on the world: whether it returned, and the world it left.\<close>

definition run_pool ::
  "nat \<Rightarrow> (nat \<Rightarrow> nat) \<Rightarrow> worker_kind \<Rightarrow> env \<Rightarrow> nat \<Rightarrow> string list \<Rightarrow> string set \<Rightarrow> world \<Rightarrow> bool \<times> world" where
  "run_pool fuel sched kind E jobs tasks done w =
     (case process_tasks fuel (worker_of kind E) jobs sched tasks done w of
        Returned s \<Rightarrow> (True, world s)
      | Blocked s \<Rightarrow> (False, world s)
      | Running s \<Rightarrow> (False, world s))"

text \<open>\<open>fetch_git\<close> from the comment \<open>no directory listing\<close> to its end.\<close>

definition fetch_without_listing :: "nat \<Rightarrow> (nat \<Rightarrow> nat) \<Rightarrow> env \<Rightarrow> nat \<Rightarrow> world \<Rightarrow> ending \<times> world" where
  \<open>fetch_without_listing fuel sched E jobs w0 =
     (let w = printf ''[-] Fetching common files\<newline>'' w0;
          (returned, w) = run_pool fuel sched DownloadWorker E jobs common_files {} w
      in if \<not> returned then (NoReturn, w) else
      let w = printf ''[-] Finding refs/\<newline>'' w;
          (returned, w) = run_pool fuel sched FindRefsWorker E jobs ref_files {} w
      in if \<not> returned then (NoReturn, w) else
      let w = printf ''[-] Finding packs\<newline>'' w;
          info_packs_path = abspath_join E (directory E) ''.git/objects/info/packs''
      in if path_exists w info_packs_path \<and> files w info_packs_path = None
         then (Raised ''IsADirectoryError'', w) else
      let tasks = (case files w info_packs_path of
                     None \<Rightarrow> []
                   | Some info_packs \<Rightarrow> pack_tasks (findall_packs info_packs));
          (returned, w) = run_pool fuel sched DownloadWorker E jobs tasks {} w
      in if \<not> returned then (NoReturn, w) else
      let w = printf ''[-] Finding objects\<newline>'' w;
          (objs, packed_objs) = find_objects E w;
          w = printf ''[-] Fetching objects\<newline>'' w;
          (returned, w) = run_pool fuel sched FindObjectsWorker E jobs objs packed_objs w
      in if \<not> returned then (NoReturn, w)
         else (Exit 0, printf (''[-] Please run "git checkout ." in '' @ directory E @ ''\<newline>'') w))\<close>

text \<open>\<open>fetch_git\<close> from the comment \<open>check for directory listing\<close> on.\<close>

definition fetch_after_probe :: "nat \<Rightarrow> (nat \<Rightarrow> nat) \<Rightarrow> env \<Rightarrow> nat \<Rightarrow> world \<Rightarrow> ending \<times> world" where
  \<open>fetch_after_probe fuel sched E jobs w0 =
     (let (resp, w) = url_get E (url E @ ''/.git/'') w0
      in case resp of
           None \<Rightarrow> (Raised ''UnboundLocalError'', w)
         | Some response \<Rightarrow>
             if status_code response = 200 \<and> is_html response
                \<and> ''HEAD'' \<in> set (get_indexed_files (html E) response)
             then
               (let w = printf ''[-] Fetching .git recursively\<newline>'' w;
                    (returned, w) = run_pool fuel sched RecursiveDownloadWorker E jobs
                                      [''.git/'', ''.gitignore''] {} w
                in if \<not> returned then (NoReturn, w)
                   else (Exit 0, printf (''[-] Please run  "git checkout ." in '' @ directory E @ ''\<newline>'') w))
             else fetch_without_listing fuel sched E jobs w)\<close>

text \<open>
  \<open>fetch_git\<close>. Its arguments are the fields of \<open>E0\<close> and \<open>jobs\<close>; the base URL replaces
  the URL given. A failed probe prints to the error stream and returns 1, which the main
  program passes to \<open>sys.exit\<close>.
\<close>

definition fetch_git :: "nat \<Rightarrow> (nat \<Rightarrow> nat) \<Rightarrow> env \<Rightarrow> nat \<Rightarrow> world \<Rightarrow> ending \<times> world" where
  "fetch_git fuel sched E0 jobs w0 =
     (if directory E0 \<notin> dirs w0
      then (Raised (''AssertionError: '' @ directory E0 @ '' is not a directory''), w0)
      else if \<not> jobs \<ge> 1 then (Raised ''AssertionError: invalid number of jobs'', w0)
      else if \<not> retry E0 \<ge> 1 then (Raised ''AssertionError: invalid number of retries'', w0)
      else if \<not> timeout E0 \<ge> 1 then (Raised ''AssertionError: invalid timeout'', w0)
      else
        let E = E0\<lparr>url := base_url (url E0)\<rparr>;
            (resp, w) = url_get E (url E @ ''/.git/HEAD'') w0
        in case resp of
             None \<Rightarrow> (Raised ''UnboundLocalError'', w)
           | Some response \<Rightarrow>
               if status_code response \<noteq> 200
               then (Exit 1, printf_stderr (''error: '' @ url E @ ''/.git/HEAD does not exist\<newline>'') w)
               else if \<not> startswith (resp_text response) ''ref:''
               then (Exit 1, printf_stderr (''error: '' @ url E @ ''/.git/HEAD is not a git HEAD file\<newline>'') w)
               else fetch_after_probe fuel sched E jobs w)"

text \<open>
  The relation between the world \<open>w0\<close> in which \<open>fetch_git\<close> starts and a later world \<open>w\<close>
  of the same run, used for the statement on repeated runs: what exists on disk still
  exists, and every request sent since is one of the two probes or the request of a
  task whose path was not on disk in \<open>w0\<close>, or a directory request of the recursive worker.
\<close>

definition allowed_request :: "env \<Rightarrow> world \<Rightarrow> string \<Rightarrow> bool" where
  "allowed_request E w0 u =
     (u = url E @ ''/.git/HEAD'' \<or> u = url E @ ''/.git/''
      \<or> (\<exists>kind t. u = url E @ ''/'' @ task_path kind t
            \<and> (\<not> path_exists w0 (abspath_join E (directory E) (task_path kind t))
                \<or> kind = RecursiveDownloadWorker \<and> endswith t ''/'')))"

definition no_refetch :: "env \<Rightarrow> world \<Rightarrow> world \<Rightarrow> bool" where
  "no_refetch E w0 w =
     ((\<forall>p. path_exists w0 p \<longrightarrow> path_exists w p)
      \<and> (\<exists>new. requests w = requests w0 @ new \<and> (\<forall>u \<in> set new. allowed_request E w0 u)))"




section \<open>Example data\<close>

text \<open>
  Example data: a server of fixed pages that answers 404 for every other URL, the
  arguments of a run, and a disk that already holds \<open>.git/config\<close>.
\<close>

definition not_found :: response where
  "not_found = \<lparr>status_code = 404, headers = Map.empty, resp_text = []\<rparr>"

definition page :: "string \<Rightarrow> response" where
  "page body = \<lparr>status_code = 200, headers = Map.empty, resp_text = body\<rparr>"

definition static_server :: "(string \<times> response) list \<Rightarrow> string list \<Rightarrow> string \<Rightarrow> response" where
  "static_server pages history u = (case map_of pages u of None \<Rightarrow> not_found | Some r \<Rightarrow> r)"

definition example_env :: "(string list \<Rightarrow> string \<Rightarrow> response) \<Rightarrow> env" where
  "example_env srv =
     \<lparr>url = ''http://host/.git/'', directory = ''/out'', retry = 3, timeout = 3,
      abspath_join = (\<lambda>d p. d @ ''/'' @ p), server = srv, html = example_lib,
      from_path = (\<lambda>data. None), find_objects = (\<lambda>w. ([], {}))\<rparr>"

definition example_disk :: world where
  "example_disk =
     \<lparr>files = [''/out/.git/config'' \<mapsto> ''[core]''], dirs = {''/out'', ''/out/.git''},
      requests = [], sessions = 0, slept = 0, stdout = [], stderr = []\<rparr>"

definition ref_site :: "string list \<Rightarrow> string \<Rightarrow> response" where
  "ref_site = static_server [(''http://host/.git/HEAD'', page ''ref: refs/heads/master'')]"

definition broken_site :: "string list \<Rightarrow> string \<Rightarrow> response" where
  "broken_site = static_server [(''http://host/.git/HEAD'', page ''not a ref file'')]"






section \<open>Results about the object-reference extractor\<close>

text \<open>
  Claim C3. For every parsed object the extractor returns normally with: the tree id
  followed by every parent id for a commit, the id of every entry for a tree, and the
  empty list for a blob.
\<close>

theorem get_referenced_sha1_commit_tree_blob:
  "get_referenced_sha1 (Commit tree parents) = Inr (tree # parents)
   \<and> set (projr (get_referenced_sha1 (Commit tree parents))) = {tree} \<union> set parents
   \<and> get_referenced_sha1 (Tree items) = Inr (map entry_sha items)
   \<and> set (projr (get_referenced_sha1 (Tree items))) = entry_sha ` set items
   \<and> get_referenced_sha1 (Blob content) = Inr []"
  by simp



section \<open>Results about the directory-listing parser\<close>

lemma indexed_links_sound:
  "p \<in> set (indexed_links parse links) \<Longrightarrow>
     p \<noteq> [] \<and> p \<noteq> ''.'' \<and> p \<noteq> ''..'' \<and> \<not> startswith p ''/''
     \<and> (\<exists>href \<in> set links. path (parse href) = p \<and> scheme (parse href) = [] \<and> netloc (parse href) = [])"
  by (induction links) (auto simp: Let_def split: if_splits)

text \<open>
  Claim C5. Every path returned by \<open>get_indexed_files\<close> is non-empty, is neither \<open>.\<close> nor
  \<open>..\<close>, does not begin with \<open>/\<close>, and is the path of the \<open>href\<close> of an anchor of the page
  whose parsed URL has an empty scheme and an empty host.
\<close>

theorem get_indexed_files_relative:
  "p \<in> set (get_indexed_files lib response) \<Longrightarrow>
     p \<noteq> [] \<and> p \<noteq> ''.'' \<and> p \<noteq> ''..'' \<and> \<not> startswith p ''/''
     \<and> (\<exists>href \<in> set (anchor_hrefs lib (resp_text response)).
           path (urlparse lib href) = p \<and> scheme (urlparse lib href) = []
           \<and> netloc (urlparse lib href) = [])"
  unfolding get_indexed_files_def by (rule indexed_links_sound)

theorem get_indexed_files_relative_witness:
  "get_indexed_files example_lib example_page = [''HEAD'', ''refs/'']
   \<and> ''refs/'' \<in> set (get_indexed_files example_lib example_page)
   \<and> \<not> startswith ''refs/'' ''/''
   \<and> (\<exists>href \<in> set (anchor_hrefs example_lib (resp_text example_page)).
           path (urlparse example_lib href) = ''refs/'' \<and> scheme (urlparse example_lib href) = []
           \<and> netloc (urlparse example_lib href) = [])"
proof -
  have l: "get_indexed_files example_lib example_page = [''HEAD'', ''refs/'']"
    by (simp add: get_indexed_files_def example_lib_def example_page_def example_urlparse_def
        startswith_def)
  then have m: "''refs/'' \<in> set (get_indexed_files example_lib example_page)" by simp
  from get_indexed_files_relative [OF m] l m show ?thesis by blast
qed

section \<open>Results about the worker pool\<close>


lemma fold_enqueue:
  "\<exists>new. enqueued (fold enqueue ts s) = enqueued s @ new
      \<and> pending_tasks (fold enqueue ts s) = pending_tasks s @ new
      \<and> num_pending_tasks (fold enqueue ts s) = num_pending_tasks s + length new
      \<and> tasks_seen (fold enqueue ts s) = tasks_seen s \<union> set ts
      \<and> distinct new \<and> set new = set ts - tasks_seen s
      \<and> executed (fold enqueue ts s) = executed s
      \<and> world (fold enqueue ts s) = world s
      \<and> alive (fold enqueue ts s) = alive s
      \<and> started (fold enqueue ts s) = started s"
proof (induction ts arbitrary: s)
  case Nil
  show ?case by simp
next
  case (Cons t ts)
  show ?case
  proof (cases "t \<in> tasks_seen s")
    case True
    then have e: "enqueue t s = s" by (simp add: enqueue_def)
    from Cons.IH [of s] obtain new where n: "enqueued (fold enqueue ts s) = enqueued s @ new"
      "pending_tasks (fold enqueue ts s) = pending_tasks s @ new"
      "num_pending_tasks (fold enqueue ts s) = num_pending_tasks s + length new"
      "tasks_seen (fold enqueue ts s) = tasks_seen s \<union> set ts"
      "distinct new" "set new = set ts - tasks_seen s"
      "executed (fold enqueue ts s) = executed s"
      "world (fold enqueue ts s) = world s"
      "alive (fold enqueue ts s) = alive s"
      "started (fold enqueue ts s) = started s" by blast
    have "set new = set (t # ts) - tasks_seen s" using n(6) True by auto
    moreover have "tasks_seen (fold enqueue ts s) = tasks_seen s \<union> set (t # ts)"
      using n(4) True by auto
    ultimately show ?thesis using n e by simp
  next
    case False
    define s' where "s' = enqueue t s"
    have s': "enqueued s' = enqueued s @ [t]" "pending_tasks s' = pending_tasks s @ [t]"
      "num_pending_tasks s' = num_pending_tasks s + 1" "tasks_seen s' = insert t (tasks_seen s)"
      "executed s' = executed s" "world s' = world s" "alive s' = alive s" "started s' = started s"
      using False by (simp_all add: s'_def enqueue_def)
    from Cons.IH [of s'] obtain new where n: "enqueued (fold enqueue ts s') = enqueued s' @ new"
      "pending_tasks (fold enqueue ts s') = pending_tasks s' @ new"
      "num_pending_tasks (fold enqueue ts s') = num_pending_tasks s' + length new"
      "tasks_seen (fold enqueue ts s') = tasks_seen s' \<union> set ts"
      "distinct new" "set new = set ts - tasks_seen s'"
      "executed (fold enqueue ts s') = executed s'"
      "world (fold enqueue ts s') = world s'"
      "alive (fold enqueue ts s') = alive s'"
      "started (fold enqueue ts s') = started s'" by blast
    have f: "fold enqueue (t # ts) s = fold enqueue ts s'" by (simp add: s'_def)
    have d: "distinct (t # new)" using n(5,6) s'(4) by auto
    have st: "set (t # new) = set (t # ts) - tasks_seen s" using n(6) s'(4) False by auto
    have "enqueued (fold enqueue (t # ts) s) = enqueued s @ (t # new)
      \<and> pending_tasks (fold enqueue (t # ts) s) = pending_tasks s @ (t # new)
      \<and> num_pending_tasks (fold enqueue (t # ts) s) = num_pending_tasks s + length (t # new)
      \<and> tasks_seen (fold enqueue (t # ts) s) = tasks_seen s \<union> set (t # ts)
      \<and> distinct (t # new) \<and> set (t # new) = set (t # ts) - tasks_seen s
      \<and> executed (fold enqueue (t # ts) s) = executed s
      \<and> world (fold enqueue (t # ts) s) = world s
      \<and> alive (fold enqueue (t # ts) s) = alive s
      \<and> started (fold enqueue (t # ts) s) = started s"
      unfolding f using n s' d st by auto
    then show ?thesis by blast
  qed
qed

lemma pool_inv_fold_enqueue:
  assumes "pool_inv D s"
  shows "pool_inv D (fold enqueue ts s)"
proof -
  from fold_enqueue [of ts s] obtain new where n:
    "enqueued (fold enqueue ts s) = enqueued s @ new"
    "pending_tasks (fold enqueue ts s) = pending_tasks s @ new"
    "tasks_seen (fold enqueue ts s) = tasks_seen s \<union> set ts"
    "distinct new" "set new = set ts - tasks_seen s"
    "executed (fold enqueue ts s) = executed s" by blast
  from assms have a: "distinct (enqueued s)" "tasks_seen s = D \<union> set (enqueued s)"
    "set (enqueued s) \<inter> D = {}" "mset (enqueued s) = mset (executed s) + mset (pending_tasks s)"
    by (simp_all add: pool_inv_def)
  have "distinct (enqueued s @ new)" using a(1,2) n(4,5) by auto
  moreover have "tasks_seen s \<union> set ts = D \<union> set (enqueued s @ new)" using a(2) n(5) by auto
  moreover have "set (enqueued s @ new) \<inter> D = {}" using a(2,3) n(5) by auto
  moreover have "mset (enqueued s @ new) = mset (executed s) + mset (pending_tasks s @ new)"
    using a(4) by simp
  ultimately show ?thesis unfolding pool_inv_def n by blast
qed

lemma pick_in_range:
  assumes "alive s \<noteq> 0" "pending_tasks s \<noteq> []"
  shows "k mod min (alive s) (length (pending_tasks s)) < length (pending_tasks s)"
proof -
  have "0 < min (alive s) (length (pending_tasks s))" using assms by simp
  then have "k mod min (alive s) (length (pending_tasks s)) < min (alive s) (length (pending_tasks s))"
    by (rule mod_less_divisor)
  then show ?thesis by simp
qed

lemma mset_without_nth:
  "i < length xs \<Longrightarrow> mset xs = add_mset (xs ! i) (mset (take i xs @ drop (Suc i) xs))"
proof -
  assume "i < length xs"
  then have "xs = take i xs @ xs ! i # drop (Suc i) xs" by (rule id_take_nth_drop)
  then have "mset xs = mset (take i xs @ xs ! i # drop (Suc i) xs)" by simp
  then show ?thesis by simp
qed

lemma pool_inv_finish:
  assumes "pool_inv D s" "i < length (pending_tasks s)"
  shows "pool_inv D (s\<lparr>pending_tasks := take i (pending_tasks s) @ drop (Suc i) (pending_tasks s),
                      executed := executed s @ [pending_tasks s ! i],
                      world := w\<rparr>)"
  using assms mset_without_nth [of i "pending_tasks s"] by (simp add: pool_inv_def)

lemma pool_inv_upd:
  "pool_inv D (s\<lparr>alive := a\<rparr>) = pool_inv D s"
  "pool_inv D (s\<lparr>started := b\<rparr>) = pool_inv D s"
  "pool_inv D (s\<lparr>num_pending_tasks := c\<rparr>) = pool_inv D s"
  "pool_inv D (s\<lparr>world := w\<rparr>) = pool_inv D s"
  by (simp_all add: pool_inv_def)



lemma closure_inv_step:
  fixes s :: "('t, 'w) pool" and w :: 'w
  assumes inv: "closure_inv f D S s" and i: "i < length (pending_tasks s)"
  defines "s' \<equiv> fold enqueue (f (pending_tasks s ! i))
     (s\<lparr>pending_tasks := take i (pending_tasks s) @ drop (Suc i) (pending_tasks s),
        executed := executed s @ [pending_tasks s ! i],
        world := w, num_pending_tasks := num_pending_tasks s - 1\<rparr>)"
  shows "closure_inv f D S s'" and "executed s' = executed s @ [pending_tasks s ! i]"
    and "alive s' = alive s" and "pending_tasks s ! i \<notin> set (executed s)"
    and "pending_tasks s ! i \<in> reach_avoiding f D S"
proof -
  let ?t = "pending_tasks s ! i"
  let ?s1 = "s\<lparr>pending_tasks := take i (pending_tasks s) @ drop (Suc i) (pending_tasks s),
        executed := executed s @ [?t], world := w\<rparr>"
  let ?s2 = "?s1\<lparr>num_pending_tasks := num_pending_tasks s - 1\<rparr>"
  from inv have p: "pool_inv D s" and nl: "num_pending_tasks s = length (pending_tasks s)"
    and sub: "set (enqueued s) \<subseteq> reach_avoiding f D S" and seeds: "S \<subseteq> tasks_seen s"
    and fol: "\<forall>t \<in> set (executed s). set (f t) \<subseteq> tasks_seen s"
    by (simp_all add: closure_inv_def)
  from p have d: "distinct (enqueued s)" and seen: "tasks_seen s = D \<union> set (enqueued s)"
    and m: "mset (enqueued s) = mset (executed s) + mset (pending_tasks s)"
    by (simp_all add: pool_inv_def)
  from m have m': "mset (enqueued s) = mset (executed s @ pending_tasks s)" by simp
  then have "distinct (enqueued s) = distinct (executed s @ pending_tasks s)"
    by (rule mset_eq_imp_distinct_iff)
  with d have dd: "distinct (executed s @ pending_tasks s)" by simp
  have tp: "?t \<in> set (pending_tasks s)" using i by simp
  with dd show notex: "?t \<notin> set (executed s)" by auto
  from m' have "set (enqueued s) = set (executed s @ pending_tasks s)" by (rule mset_eq_setD)
  with tp have te: "?t \<in> set (enqueued s)" by simp
  with sub show tR: "?t \<in> reach_avoiding f D S" by blast
  have p2: "pool_inv D ?s2" using pool_inv_finish [OF p i, of w] by (simp add: pool_inv_upd)
  from fold_enqueue [of "f ?t" ?s2] obtain new where n:
    "enqueued s' = enqueued ?s2 @ new"
    "pending_tasks s' = pending_tasks ?s2 @ new"
    "num_pending_tasks s' = num_pending_tasks ?s2 + length new"
    "tasks_seen s' = tasks_seen ?s2 \<union> set (f ?t)"
    "set new = set (f ?t) - tasks_seen ?s2"
    "executed s' = executed ?s2"
    "alive s' = alive ?s2"
    unfolding s'_def by blast
  show "executed s' = executed s @ [?t]" using n(6) by simp
  show "alive s' = alive s" using n(7) by simp
  have a: "pool_inv D s'" unfolding s'_def using p2 by (rule pool_inv_fold_enqueue)
  have b: "num_pending_tasks s' = length (pending_tasks s')" using n(2,3) nl i by simp
  have "set new \<subseteq> reach_avoiding f D S"
  proof
    fix u assume "u \<in> set new"
    then have "u \<in> set (f ?t)" "u \<notin> D" using n(5) seen by auto
    with tR show "u \<in> reach_avoiding f D S" by (rule reach_avoiding.follow)
  qed
  then have c: "set (enqueued s') \<subseteq> reach_avoiding f D S" using n(1) sub by simp
  have e: "S \<subseteq> tasks_seen s'" using n(4) seeds by auto
  have g: "\<forall>t \<in> set (executed s'). set (f t) \<subseteq> tasks_seen s'" using n(4,6) fol by auto
  show "closure_inv f D S s'" unfolding closure_inv_def using a b c e g by blast
qed

lemma closure_inv_final:
  assumes inv: "closure_inv f D S s" and e: "pending_tasks s = []"
  shows "set (executed s) = reach_avoiding f D S"
proof -
  from inv have p: "pool_inv D s" 
    and sub: "set (enqueued s) \<subseteq> reach_avoiding f D S" and seeds: "S \<subseteq> tasks_seen s"
    and fol: "\<forall>t \<in> set (executed s). set (f t) \<subseteq> tasks_seen s"
    by (simp_all add: closure_inv_def)
  from p have seen: "tasks_seen s = D \<union> set (enqueued s)"
    and m: "mset (enqueued s) = mset (executed s) + mset (pending_tasks s)"
    by (simp_all add: pool_inv_def)
  from m e have "mset (enqueued s) = mset (executed s)" by simp
  then have eq: "set (enqueued s) = set (executed s)" by (rule mset_eq_setD)
  have "t \<in> set (executed s)" if "t \<in> reach_avoiding f D S" for t
    using that
  proof (induction rule: reach_avoiding.induct)
    case (seed t)
    then show ?case using seeds seen eq by auto
  next
    case (follow t u)
    then show ?case using fol seen eq by auto
  qed
  then show ?thesis using sub eq by auto
qed

lemma collect_closure:
  assumes total: "\<And>t w. fst (do_task W t w) = Some (f t)"
    and fin: "finite (reach_avoiding f D S)"
  shows "closure_inv f D S s \<Longrightarrow> 0 < alive s \<Longrightarrow>
     card (reach_avoiding f D S - set (executed s)) \<le> fuel \<Longrightarrow>
     \<exists>r. collect fuel W sched n s = Returned r \<and> closure_inv f D S r \<and> pending_tasks r = []
         \<and> started r = started s"
proof (induction fuel arbitrary: s n)
  case 0
  then have "reach_avoiding f D S - set (executed s) = {}" using fin by simp
  then have R: "reach_avoiding f D S \<subseteq> set (executed s)" by blast
  from 0 have p: "pool_inv D s" and nl: "num_pending_tasks s = length (pending_tasks s)"
    and sub: "set (enqueued s) \<subseteq> reach_avoiding f D S" by (simp_all add: closure_inv_def)
  have "pending_tasks s = []"
  proof (rule ccontr)
    assume "pending_tasks s \<noteq> []"
    then have "0 < length (pending_tasks s)" by simp
    from closure_inv_step(4,5) [OF "0.prems"(1) this] R show False by blast
  qed
  then show ?case using nl "0.prems"(1) by simp
next
  case (Suc fuel)
  from Suc.prems have nl: "num_pending_tasks s = length (pending_tasks s)"
    by (simp add: closure_inv_def)
  show ?case
  proof (cases "pending_tasks s = []")
    case True
    then show ?thesis using nl Suc.prems(1) by simp
  next
    case False
    define i where "i = sched n mod min (alive s) (length (pending_tasks s))"
    have i: "i < length (pending_tasks s)" unfolding i_def using False Suc.prems(2)
      by (intro pick_in_range) auto
    obtain result w where r: "do_task W (pending_tasks s ! i) (world s) = (result, w)" by fastforce
    with total [of "pending_tasks s ! i" "world s"] have res: "result = Some (f (pending_tasks s ! i))"
      by simp
    define s' where "s' = fold enqueue (f (pending_tasks s ! i))
     (s\<lparr>pending_tasks := take i (pending_tasks s) @ drop (Suc i) (pending_tasks s),
        executed := executed s @ [pending_tasks s ! i],
        world := w, num_pending_tasks := num_pending_tasks s - 1\<rparr>)"
    note st = closure_inv_step(1-3) [OF Suc.prems(1) i, where w = w, folded s'_def]
      closure_inv_step(4,5) [OF Suc.prems(1) i]
    have c: "collect (Suc fuel) W sched n s = collect fuel W sched (Suc n) s'"
      using False nl r res Suc.prems(2) by (simp add: Let_def i_def [symmetric] s'_def)
    have "reach_avoiding f D S - set (executed s') =
        (reach_avoiding f D S - set (executed s)) - {pending_tasks s ! i}"
      using st(2) by auto
    moreover have "pending_tasks s ! i \<in> reach_avoiding f D S - set (executed s)"
      using st(4,5) by simp
    ultimately have "card (reach_avoiding f D S - set (executed s')) 
        = card (reach_avoiding f D S - set (executed s)) - 1"
      by (simp add: fin)
    moreover have "card (reach_avoiding f D S - set (executed s)) > 0"
      using \<open>pending_tasks s ! i \<in> reach_avoiding f D S - set (executed s)\<close> fin
      by (metis card_gt_0_iff empty_iff finite_Diff)
    ultimately have "card (reach_avoiding f D S - set (executed s')) \<le> fuel"
      using Suc.prems(3) by simp
    from Suc.IH [OF st(1) _ this, of "Suc n"] st(3) Suc.prems(2)
    obtain r where "collect fuel W sched (Suc n) s' = Returned r" "closure_inv f D S r"
      "pending_tasks r = []" "started r = started s'" by auto
    moreover have "started s' = started s" 
      using fold_enqueue [of "f (pending_tasks s ! i)" "(s\<lparr>pending_tasks := take i (pending_tasks s) @ drop (Suc i) (pending_tasks s),
        executed := executed s @ [pending_tasks s ! i],
        world := w, num_pending_tasks := num_pending_tasks s - 1\<rparr>)"] unfolding s'_def by auto
    ultimately show ?thesis using c by simp
  qed
qed

lemma reach_avoiding_subset: "reach_avoiding f D S \<subseteq> reach f S - D"
proof
  fix t assume "t \<in> reach_avoiding f D S"
  then show "t \<in> reach f S - D"
    by (induction rule: reach_avoiding.induct) (auto intro: reach.intros)
qed

lemma reach_avoiding_no_seeds: "reach_avoiding f D {} = {}"
proof -
  have "t \<in> reach_avoiding f D {} \<Longrightarrow> False" for t
    by (induction rule: reach_avoiding.induct) auto
  then show ?thesis by blast
qed

lemma reach_avoiding_nothing_done: "reach_avoiding f {} S = reach f S"
proof
  show "reach_avoiding f {} S \<subseteq> reach f S" using reach_avoiding_subset [of f "{}" S] by blast
  show "reach f S \<subseteq> reach_avoiding f {} S"
  proof
    fix t assume "t \<in> reach f S"
    then show "t \<in> reach_avoiding f {} S"
      by (induction rule: reach.induct) (auto intro: reach_avoiding.intros)
  qed
qed

lemma reach_chain_follow: "reach chain_follow {0} = {0, 1, 2}"
proof
  show "reach chain_follow {0} \<subseteq> {0, 1, 2}"
  proof
    fix t assume "t \<in> reach chain_follow {0}"
    then show "t \<in> {0, 1, 2}"
      by (induction rule: reach.induct) (auto simp: chain_follow_def split: if_splits)
  qed
  have 0: "0 \<in> reach chain_follow {0}" by (rule reach.seed) simp
  have 1: "1 \<in> reach chain_follow {0}" by (rule reach.follow [OF 0]) (simp add: chain_follow_def)
  have 2: "2 \<in> reach chain_follow {0}" by (rule reach.follow [OF 1]) (simp add: chain_follow_def)
  from 0 1 2 show "{0, 1, 2} \<subseteq> reach chain_follow {0}" by simp
qed

text \<open>
  Without a worker process nobody takes the tasks from the queue: the orchestrator waits
  for a result for ever. \<open>fetch_git\<close> asserts \<open>jobs >= 1\<close>.
\<close>

lemma process_tasks_no_worker:
  assumes "set initial_tasks - D \<noteq> {}"
  shows "\<exists>s. process_tasks (Suc fuel) W 0 sched initial_tasks D w = Blocked s"
proof -
  let ?e = "(empty_pool w)\<lparr>tasks_seen := D\<rparr> :: ('a, 'b) pool"
  from fold_enqueue [of initial_tasks ?e] obtain new where n:
    "num_pending_tasks (fold enqueue initial_tasks ?e) = num_pending_tasks ?e + length new"
    "set new = set initial_tasks - tasks_seen ?e" by blast
  from n(2) assms have "new \<noteq> []" by (auto simp: empty_pool_def)
  with n(1) have "0 < num_pending_tasks (fold enqueue initial_tasks ?e)" by simp
  moreover from assms have "initial_tasks \<noteq> []" by auto
  ultimately show ?thesis by (simp add: process_tasks_def launch_def)
qed

text \<open>
  Claim C1, as stated, fails when a \<open>tasks_done\<close> set is given: a task of that set is
  never executed, so what is reachable only through it is never discovered. With the
  chain \<open>0, 1, 2\<close>, seed \<open>0\<close> and \<open>tasks_done = {1}\<close> the run returns having executed task
  \<open>0\<close> alone, while the closure of the seed without \<open>tasks_done\<close> is \<open>{0, 2}\<close>.
\<close>

theorem process_tasks_closure_counterexample:
  "finite (reach chain_follow (set [0]))
   \<and> process_tasks 1 (pure_worker chain_follow) 1 fifo [0] {1} () =
       Returned \<lparr>tasks_seen = {0, 1}, pending_tasks = [], num_pending_tasks = 0, started = 1,
         alive = 0, enqueued = [0], executed = [0], world = ()\<rparr>
   \<and> set (executed (state_of (process_tasks 1 (pure_worker chain_follow) 1 fifo [0] {1} ())))
       \<noteq> reach chain_follow (set [0]) - {1}"
proof -
  have r: "reach chain_follow (set [0]) = {0, 1, 2}" by (simp add: reach_chain_follow)
  have p: "process_tasks 1 (pure_worker chain_follow) 1 fifo [0] {1} () =
       Returned \<lparr>tasks_seen = {0, 1}, pending_tasks = [], num_pending_tasks = 0, started = 1,
         alive = 0, enqueued = [0], executed = [0], world = ()\<rparr>"
    by code_simp
  have fin: "finite (reach chain_follow (set [0]))" unfolding r by simp
  have e: "set (executed (state_of (process_tasks 1 (pure_worker chain_follow) 1 fifo [0] {1} ()))) = {0}"
    unfolding p by simp
  have "(2::nat) \<in> reach chain_follow (set [0]) - {1}" unfolding r by simp
  moreover have "(2::nat) \<notin> {0}" by simp
  ultimately have "set (executed (state_of (process_tasks 1 (pure_worker chain_follow) 1 fifo [0] {1} ())))
       \<noteq> reach chain_follow (set [0]) - {1}" unfolding e by metis
  with fin p show ?thesis by blast
qed

text \<open>
  Claim C1, amended. For every finite seed task list, every follow-up function whose
  induced closure is finite, every \<open>tasks_done\<close> set, at least one worker, and whatever the
  order in which the workers finish: the run returns (within as many rounds as there are
  tasks to execute), and the set of executed tasks is the set of tasks reachable from the
  seeds outside \<open>tasks_done\<close> through follow-ups outside \<open>tasks_done\<close>. When \<open>tasks_done\<close> is
  empty that is the closure of the seeds.
\<close>

theorem process_tasks_closure:
  assumes fin: "finite (reach f (set initial_tasks))"
    and jobs: "0 < jobs"
    and total: "\<And>t w. fst (do_task W t w) = Some (f t)"
    and fuel: "card (reach_avoiding f D (set initial_tasks)) \<le> fuel"
  shows "\<exists>s. process_tasks fuel W jobs sched initial_tasks D w = Returned s
            \<and> set (executed s) = reach_avoiding f D (set initial_tasks)
            \<and> (D = {} \<longrightarrow> set (executed s) = reach f (set initial_tasks))"
proof (cases "initial_tasks = []")
  case True
  then show ?thesis
    by (simp add: process_tasks_def empty_pool_def reach_avoiding_no_seeds reach_avoiding_nothing_done [symmetric])
next
  case False
  let ?S = "set initial_tasks"
  let ?R = "reach_avoiding f D ?S"
  let ?e = "(empty_pool w)\<lparr>tasks_seen := D\<rparr> :: ('a, 'b) pool"
  define s0 where "s0 = launch W jobs (fold enqueue initial_tasks ?e)"
  have finR: "finite ?R" using fin reach_avoiding_subset [of f D ?S] by (meson finite_Diff finite_subset)
  from fold_enqueue [of initial_tasks ?e] obtain new where n:
    "enqueued (fold enqueue initial_tasks ?e) = enqueued ?e @ new"
    "pending_tasks (fold enqueue initial_tasks ?e) = pending_tasks ?e @ new"
    "num_pending_tasks (fold enqueue initial_tasks ?e) = num_pending_tasks ?e + length new"
    "tasks_seen (fold enqueue initial_tasks ?e) = tasks_seen ?e \<union> ?S"
    "set new = ?S - tasks_seen ?e"
    "executed (fold enqueue initial_tasks ?e) = executed ?e" by blast
  have "pool_inv D ?e" by (simp add: pool_inv_def empty_pool_def)
  then have p: "pool_inv D s0" unfolding s0_def launch_def
    by (simp add: pool_inv_upd pool_inv_fold_enqueue)
  have "set new \<subseteq> ?R" using n(5) by (auto simp: empty_pool_def intro: reach_avoiding.seed)
  then have "closure_inv f D ?S s0" unfolding closure_inv_def using p n
    by (simp add: s0_def launch_def empty_pool_def)
  moreover have "0 < alive s0" using jobs by (simp add: s0_def launch_def)
  moreover have "card (?R - set (executed s0)) \<le> fuel" using fuel n(6)
    by (simp add: s0_def launch_def empty_pool_def)
  ultimately obtain r where r: "collect fuel W sched 0 s0 = Returned r" "closure_inv f D ?S r"
    "pending_tasks r = []"
    using collect_closure [OF total finR, where s = s0 and fuel = fuel and sched = sched and n = 0] by blast
  from closure_inv_final [OF r(2,3)] have "set (executed r) = ?R" .
  then show ?thesis using False r(1)
    by (auto simp add: process_tasks_def s0_def [symmetric] reach_avoiding_nothing_done)
qed

theorem process_tasks_closure_witness:
  "finite (reach chain_follow (set [0])) \<and> (0::nat) < 2
   \<and> (\<exists>s. process_tasks 3 (pure_worker chain_follow) 2 fifo [0] {} () = Returned s
          \<and> set (executed s) = {0, 1, 2})"
proof -
  have r: "reach chain_follow (set [0]) = {0, 1, 2}" by (simp add: reach_chain_follow)
  have fin: "finite (reach chain_follow (set [0]))" unfolding r by simp
  have c: "card (reach_avoiding chain_follow {} (set [0])) \<le> 3"
    unfolding reach_avoiding_nothing_done r by simp
  have t: "\<And>t w. fst (do_task (pure_worker chain_follow) t w) = Some (chain_follow t)"
    by (simp add: pure_worker_def)
  have j: "(0::nat) < 2" by simp
  from process_tasks_closure [OF fin j t c, where sched = fifo and w = "()"] 
  obtain s where "process_tasks 3 (pure_worker chain_follow) 2 fifo [0] {} () = Returned s"
     "set (executed s) = reach chain_follow (set [0])" by auto
  then have "\<exists>s. process_tasks 3 (pure_worker chain_follow) 2 fifo [0] {} () = Returned s
          \<and> set (executed s) = {0, 1, 2}" unfolding r by blast
  with fin j show ?thesis by blast
qed


text \<open>
  Claim C10. With an empty task list \<open>process_tasks\<close> returns at once, whatever the worker
  class, the number of jobs and the \<open>tasks_done\<close> set: no process is started, no task is
  enqueued or executed, and the world (the disk and the record of HTTP requests) is the
  one it was called in.
\<close>

theorem process_tasks_no_tasks:
  "process_tasks fuel W jobs sched [] D w = Returned (empty_pool w)
   \<and> started (state_of (process_tasks fuel W jobs sched [] D w)) = 0
   \<and> executed (state_of (process_tasks fuel W jobs sched [] D w)) = []
   \<and> enqueued (state_of (process_tasks fuel W jobs sched [] D w)) = []
   \<and> world (state_of (process_tasks fuel W jobs sched [] D w)) = w
   \<and> requests (world (state_of (process_tasks fuel (worker_of kind E) jobs sched [] done disk)))
       = requests disk
   \<and> files (world (state_of (process_tasks fuel (worker_of kind E) jobs sched [] done disk)))
       = files disk
   \<and> dirs (world (state_of (process_tasks fuel (worker_of kind E) jobs sched [] done disk)))
       = dirs disk
   \<and> sessions (world (state_of (process_tasks fuel (worker_of kind E) jobs sched [] done disk)))
       = sessions disk"
  by (simp add: process_tasks_def empty_pool_def)

section \<open>Results about the workers\<close>

lemma world_upd_simps [simp]:
  "requests (printf l w) = requests w" "files (printf l w) = files w" "dirs (printf l w) = dirs w"
  "sessions (printf l w) = sessions w" "slept (printf l w) = slept w" "stderr (printf l w) = stderr w"
  "requests (printf_stderr l w) = requests w" "files (printf_stderr l w) = files w"
  "dirs (printf_stderr l w) = dirs w" "sessions (printf_stderr l w) = sessions w"
  "slept (printf_stderr l w) = slept w"
  "requests (sleep n w) = requests w" "files (sleep n w) = files w" "dirs (sleep n w) = dirs w"
  "sessions (sleep n w) = sessions w" "slept (sleep n w) = slept w + n" "stderr (sleep n w) = stderr w"
  "requests (session_init w) = requests w" "files (session_init w) = files w"
  "dirs (session_init w) = dirs w" "sessions (session_init w) = sessions w + 1"
  "slept (session_init w) = slept w" "stderr (session_init w) = stderr w"
  "requests (write_file p d w) = requests w" "files (write_file p d w) = (files w)(p \<mapsto> d)"
  "dirs (write_file p d w) = dirs w" "sessions (write_file p d w) = sessions w"
  "slept (write_file p d w) = slept w" "stderr (write_file p d w) = stderr w"
  "requests (create_intermediate_dirs p w) = requests w"
  "files (create_intermediate_dirs p w) = files w"
  "sessions (create_intermediate_dirs p w) = sessions w"
  "slept (create_intermediate_dirs p w) = slept w"
  "stderr (create_intermediate_dirs p w) = stderr w"
  by (simp_all add: printf_def printf_stderr_def sleep_def session_init_def write_file_def
      create_intermediate_dirs_def makedirs_def Let_def split: prod.splits)

lemma dirs_create_intermediate_dirs: "dirs w \<subseteq> dirs (create_intermediate_dirs p w)"
  by (auto simp: create_intermediate_dirs_def makedirs_def Let_def split: prod.splits)

lemma http_get_simps [simp]:
  "fst (http_get E u w) = server E (requests w) u"
  "requests (snd (http_get E u w)) = requests w @ [u]"
  "files (snd (http_get E u w)) = files w" "dirs (snd (http_get E u w)) = dirs w"
  "sessions (snd (http_get E u w)) = sessions w" "slept (snd (http_get E u w)) = slept w"
  "stderr (snd (http_get E u w)) = stderr w"
  by (simp_all add: http_get_def)


lemma path_exists_mono:
  "dom (files w) \<subseteq> dom (files w') \<Longrightarrow> dirs w \<subseteq> dirs w' \<Longrightarrow> path_exists w p \<Longrightarrow> path_exists w' p"
  by (auto simp: path_exists_def)

lemma download_loop_world:
  "\<exists>k. k \<le> 5 - cnt
       \<and> requests (snd (download_loop E filepath abspath cnt w))
           = requests w @ replicate k (url E @ ''/'' @ filepath)
       \<and> dom (files w) \<subseteq> dom (files (snd (download_loop E filepath abspath cnt w)))
       \<and> dirs w \<subseteq> dirs (snd (download_loop E filepath abspath cnt w))
       \<and> stderr (snd (download_loop E filepath abspath cnt w)) = stderr w
       \<and> fst (download_loop E filepath abspath cnt w) = Some []"
proof (induction E filepath abspath cnt w rule: download_loop.induct)
  case (1 E filepath abspath cnt w)
  let ?u = "url E @ ''/'' @ filepath"
  let ?r = "server E (requests w) ?u"
  let ?w1 = "printf (fetching_line (cnt + 1) (url E) filepath (status_code ?r)) (snd (http_get E ?u w))"
  show ?case
  proof (cases "cnt < 5")
    case False
    then have "download_loop E filepath abspath cnt w = (Some [], w)"
      by (subst download_loop.simps) simp
    then show ?thesis by simp
  next
    case True
    show ?thesis
    proof (cases "status_code ?r = 403")
      case r403: True
      let ?w2 = "sleep 10 (session_init ?w1)"
      have eq: "download_loop E filepath abspath cnt w = download_loop E filepath abspath (cnt + 1) ?w2"
        using True r403 by (subst download_loop.simps) (simp add: Let_def http_get_def)
      from "1.IH" [OF True refl refl, of ?r "snd (http_get E ?u w)" ?w1] r403
      obtain k where k: "k \<le> 5 - (cnt + 1)"
        "requests (snd (download_loop E filepath abspath (cnt + 1) ?w2)) = requests ?w2 @ replicate k ?u"
        "dom (files ?w2) \<subseteq> dom (files (snd (download_loop E filepath abspath (cnt + 1) ?w2)))"
        "dirs ?w2 \<subseteq> dirs (snd (download_loop E filepath abspath (cnt + 1) ?w2))"
        "stderr (snd (download_loop E filepath abspath (cnt + 1) ?w2)) = stderr ?w2"
        "fst (download_loop E filepath abspath (cnt + 1) ?w2) = Some []"
        by (auto simp: http_get_def)
      have "Suc k \<le> 5 - cnt" using k(1) True by simp
      moreover have "requests (snd (download_loop E filepath abspath cnt w)) = requests w @ replicate (Suc k) ?u"
        unfolding eq k(2) by (simp add: replicate_append_same)
      ultimately show ?thesis using k(3-6) unfolding eq by (intro exI [of _ "Suc k"]) simp
    next
      case False
      have eq: "download_loop E filepath abspath cnt w =
          (if status_code ?r \<noteq> 200 then (Some [], ?w1)
           else (Some [], write_file abspath (resp_text ?r) (create_intermediate_dirs abspath ?w1)))"
        using True False by (subst download_loop.simps) (simp add: Let_def http_get_def)
      have "(1::nat) \<le> 5 - cnt" using True by simp
      then show ?thesis unfolding eq using dirs_create_intermediate_dirs [of ?w1 abspath]
        by (intro exI [of _ 1]) auto
    qed
  qed
qed

lemma recursive_loop_world:
  "\<exists>k. k \<le> 5 - cnt
       \<and> requests (snd (recursive_loop E filepath abspath cnt w))
           = requests w @ replicate k (url E @ ''/'' @ filepath)
       \<and> dom (files w) \<subseteq> dom (files (snd (recursive_loop E filepath abspath cnt w)))
       \<and> dirs w \<subseteq> dirs (snd (recursive_loop E filepath abspath cnt w))
       \<and> stderr (snd (recursive_loop E filepath abspath cnt w)) = stderr w"
proof (induction E filepath abspath cnt w rule: recursive_loop.induct)
  case (1 E filepath abspath cnt w)
  let ?u = "url E @ ''/'' @ filepath"
  let ?r = "server E (requests w) ?u"
  let ?w1 = "printf (fetching_line (cnt + 1) (url E) filepath (status_code ?r)) (snd (http_get E ?u w))"
  let ?redirect = "(status_code ?r = 301 \<or> status_code ?r = 302)
              \<and> (case headers ?r ''Location'' of
                    None \<Rightarrow> False
                  | Some location \<Rightarrow> endswith location (filepath @ ''/''))"
  show ?case
  proof (cases "cnt < 5")
    case False
    then have "recursive_loop E filepath abspath cnt w = (Some [], w)"
      by (subst recursive_loop.simps) simp
    then show ?thesis by simp
  next
    case True
    show ?thesis
    proof (cases "status_code ?r = 403")
      case s: True
      then have nr: "\<not> ?redirect" by simp
      note r403 = nr s
      let ?w2 = "sleep 10 (session_init ?w1)"
      have eq: "recursive_loop E filepath abspath cnt w = recursive_loop E filepath abspath (cnt + 1) ?w2"
        using True r403 by (subst recursive_loop.simps) (simp add: Let_def http_get_def)
      from "1.IH" [OF True refl refl, of ?r "snd (http_get E ?u w)" ?w1] nr s
      obtain k where k: "k \<le> 5 - (cnt + 1)"
        "requests (snd (recursive_loop E filepath abspath (cnt + 1) ?w2)) = requests ?w2 @ replicate k ?u"
        "dom (files ?w2) \<subseteq> dom (files (snd (recursive_loop E filepath abspath (cnt + 1) ?w2)))"
        "dirs ?w2 \<subseteq> dirs (snd (recursive_loop E filepath abspath (cnt + 1) ?w2))"
        "stderr (snd (recursive_loop E filepath abspath (cnt + 1) ?w2)) = stderr ?w2"
        by (auto simp: http_get_def)
      have "Suc k \<le> 5 - cnt" using k(1) True by simp
      moreover have "requests (snd (recursive_loop E filepath abspath cnt w)) = requests w @ replicate (Suc k) ?u"
        unfolding eq k(2) by (simp add: replicate_append_same)
      ultimately show ?thesis using k(3-5) unfolding eq by (intro exI [of _ "Suc k"]) simp
    next
      case False
      have eq: "recursive_loop E filepath abspath cnt w =
          (if ?redirect then (Some [filepath @ ''/''], ?w1)
           else if status_code ?r \<noteq> 200 then (Some [], ?w1)
           else if endswith filepath ''/''
           then (if is_html ?r
                 then (Some (map (\<lambda>filename. filepath @ filename) (get_indexed_files (html E) ?r)), ?w1)
                 else (None, ?w1))
           else (Some [], write_file abspath (resp_text ?r) (create_intermediate_dirs abspath ?w1)))"
        using True False by (subst recursive_loop.simps) (simp add: Let_def http_get_def)
      have "(1::nat) \<le> 5 - cnt" using True by simp
      then show ?thesis unfolding eq using dirs_create_intermediate_dirs [of ?w1 abspath]
        by (intro exI [of _ 1]) auto
    qed
  qed
qed

lemma fetch_loop_world:
  "\<exists>k. k \<le> 5 - cnt
       \<and> requests (snd (fetch_loop E filepath cnt resp w))
           = requests w @ replicate k (url E @ ''/'' @ filepath)
       \<and> files (snd (fetch_loop E filepath cnt resp w)) = files w
       \<and> dirs (snd (fetch_loop E filepath cnt resp w)) = dirs w
       \<and> stderr (snd (fetch_loop E filepath cnt resp w)) = stderr w
       \<and> (cnt < 5 \<or> resp \<noteq> None \<longrightarrow> fst (fetch_loop E filepath cnt resp w) \<noteq> None)"
proof (induction E filepath cnt resp w rule: fetch_loop.induct)
  case (1 E filepath cnt resp w)
  let ?u = "url E @ ''/'' @ filepath"
  let ?r = "server E (requests w) ?u"
  let ?w1 = "printf (fetching_line (cnt + 1) (url E) filepath (status_code ?r)) (snd (http_get E ?u w))"
  show ?case
  proof (cases "cnt < 5")
    case False
    then have "fetch_loop E filepath cnt resp w = (resp, w)"
      by (subst fetch_loop.simps) simp
    then show ?thesis using False by simp
  next
    case True
    show ?thesis
    proof (cases "status_code ?r = 403")
      case r403: True
      let ?w2 = "sleep 10 (session_init ?w1)"
      have eq: "fetch_loop E filepath cnt resp w = fetch_loop E filepath (cnt + 1) (Some ?r) ?w2"
        using True r403 by (subst fetch_loop.simps) (simp add: Let_def http_get_def)
      from "1.IH" [OF True refl refl, of ?r "snd (http_get E ?u w)" ?w1] r403
      obtain k where k: "k \<le> 5 - (cnt + 1)"
        "requests (snd (fetch_loop E filepath (cnt + 1) (Some ?r) ?w2)) = requests ?w2 @ replicate k ?u"
        "files (snd (fetch_loop E filepath (cnt + 1) (Some ?r) ?w2)) = files ?w2"
        "dirs (snd (fetch_loop E filepath (cnt + 1) (Some ?r) ?w2)) = dirs ?w2"
        "stderr (snd (fetch_loop E filepath (cnt + 1) (Some ?r) ?w2)) = stderr ?w2"
        "fst (fetch_loop E filepath (cnt + 1) (Some ?r) ?w2) \<noteq> None"
        by (auto simp: http_get_def)
      have "Suc k \<le> 5 - cnt" using k(1) True by simp
      moreover have "requests (snd (fetch_loop E filepath cnt resp w)) = requests w @ replicate (Suc k) ?u"
        unfolding eq k(2) by (simp add: replicate_append_same)
      ultimately show ?thesis using k(3-6) unfolding eq by (intro exI [of _ "Suc k"]) simp
    next
      case False
      have eq: "fetch_loop E filepath cnt resp w = (Some ?r, ?w1)"
        using True False by (subst fetch_loop.simps) (simp add: Let_def http_get_def)
      have "(1::nat) \<le> 5 - cnt" using True by simp
      then show ?thesis unfolding eq by (intro exI [of _ 1]) auto
    qed
  qed
qed

lemma parse_object_world [simp]:
  "requests (snd (parse_object E a w)) = requests w"
  "files (snd (parse_object E a w)) = files w"
  "dirs (snd (parse_object E a w)) = dirs w"
  by (simp_all add: parse_object_def split: option.splits sum.splits)

text \<open>
  What every \<open>do_task\<close> does to the world: it sends some number of requests, at most
  five and all for its own path; none if the path is on disk, directory requests of the
  recursive worker apart; and nothing on disk disappears.
\<close>

lemma do_task_world:
  fixes kind E t w
  defines "w' \<equiv> snd (do_task (worker_of kind E) t w)"
  shows "\<exists>k. k \<le> 5 \<and> requests w' = requests w @ replicate k (url E @ ''/'' @ task_path kind t)
     \<and> (path_exists w (abspath_join E (directory E) (task_path kind t))
         \<and> \<not> (kind = RecursiveDownloadWorker \<and> endswith t ''/'') \<longrightarrow> k = 0)
     \<and> dom (files w) \<subseteq> dom (files w') \<and> dirs w \<subseteq> dirs w'"
proof (cases kind)
  case DownloadWorker
  let ?a = "abspath_join E (directory E) t"
  show ?thesis
  proof (cases "path_exists w ?a")
    case True
    then have "w' = printf (already_fetched_line (url E) t) w"
      by (simp add: w'_def DownloadWorker download_do_task_def)
    then show ?thesis by (intro exI [of _ 0]) (simp add: DownloadWorker)
  next
    case False
    then have e: "w' = snd (download_loop E t ?a 0 w)"
      by (simp add: w'_def DownloadWorker download_do_task_def)
    from download_loop_world [of 0 E t ?a w] False show ?thesis
      unfolding e by (auto simp: DownloadWorker)
  qed
next
  case RecursiveDownloadWorker
  let ?a = "abspath_join E (directory E) t"
  show ?thesis
  proof (cases "\<not> endswith t ''/'' \<and> path_exists w ?a")
    case True
    then have "w' = printf (already_fetched_line (url E) t) w"
      by (simp add: w'_def RecursiveDownloadWorker recursive_do_task_def)
    then show ?thesis by (intro exI [of _ 0]) (simp add: RecursiveDownloadWorker)
  next
    case False
    then have e: "w' = snd (recursive_loop E t ?a 0 w)"
      by (auto simp add: w'_def RecursiveDownloadWorker recursive_do_task_def)
    from recursive_loop_world [of 0 E t ?a w] False show ?thesis
      unfolding e by (auto simp: RecursiveDownloadWorker)
  qed
next
  case FindRefsWorker
  let ?a = "abspath_join E (directory E) t"
  show ?thesis
  proof (cases "path_exists w ?a")
    case True
    then have "w' = printf (already_fetched_line (url E) t) w"
      by (simp add: w'_def FindRefsWorker find_refs_do_task_def Let_def split: option.splits)
    then show ?thesis by (intro exI [of _ 0]) (simp add: FindRefsWorker)
  next
    case False
    obtain resp w1 where f: "fetch_loop E t 0 None w = (resp, w1)" by fastforce
    from fetch_loop_world [of 0 E t None w] f
    obtain k where k: "k \<le> 5" "requests w1 = requests w @ replicate k (url E @ ''/'' @ t)"
      "files w1 = files w" "dirs w1 = dirs w" by auto
    have "requests w' = requests w1 \<and> dom (files w1) \<subseteq> dom (files w') \<and> dirs w1 \<subseteq> dirs w'"
      using False f dirs_create_intermediate_dirs [of w1 ?a]
      by (auto simp add: w'_def FindRefsWorker find_refs_do_task_def Let_def split: option.splits)
    then show ?thesis using k False by (intro exI [of _ k]) (simp add: FindRefsWorker)
  qed
next
  case FindObjectsWorker
  let ?p = "''.git/objects/'' @ take 2 t @ ''/'' @ drop 2 t"
  let ?a = "abspath_join E (directory E) ?p"
  show ?thesis
  proof (cases "path_exists w ?a")
    case True
    then have "w' = snd (parse_object E ?a (printf (already_fetched_line (url E) ?p) w))"
      by (simp add: w'_def FindObjectsWorker find_objects_do_task_def Let_def)
    then show ?thesis by (intro exI [of _ 0]) (simp add: FindObjectsWorker)
  next
    case False
    obtain resp w1 where f: "fetch_loop E ?p 0 None w = (resp, w1)" by fastforce
    from fetch_loop_world [of 0 E ?p None w] f
    obtain k where k: "k \<le> 5" "requests w1 = requests w @ replicate k (url E @ ''/'' @ ?p)"
      "files w1 = files w" "dirs w1 = dirs w" by auto
    have "requests w' = requests w1 \<and> dom (files w1) \<subseteq> dom (files w') \<and> dirs w1 \<subseteq> dirs w'"
      using False f dirs_create_intermediate_dirs [of w1 ?a]
      by (auto simp add: w'_def FindObjectsWorker find_objects_do_task_def Let_def split: option.splits)
    then show ?thesis using k False by (intro exI [of _ k]) (simp add: FindObjectsWorker)
  qed
qed

lemma no_refetch_refl: "no_refetch E w w"
  by (simp add: no_refetch_def)

lemma no_refetch_quiet:
  assumes "no_refetch E w0 w" "requests w' = requests w" "dom (files w) \<subseteq> dom (files w')"
    "dirs w \<subseteq> dirs w'"
  shows "no_refetch E w0 w'"
proof -
  have "path_exists w p \<Longrightarrow> path_exists w' p" for p
    using assms(3,4) by (rule path_exists_mono)
  then show ?thesis using assms(1,2) unfolding no_refetch_def by auto
qed

lemma no_refetch_requests:
  assumes inv: "no_refetch E w0 w" and r: "requests w' = requests w @ replicate k u"
    and f: "dom (files w) \<subseteq> dom (files w')" and d: "dirs w \<subseteq> dirs w'"
    and a: "k \<noteq> 0 \<Longrightarrow> allowed_request E w0 u"
  shows "no_refetch E w0 w'"
proof -
  from inv obtain new where n: "requests w = requests w0 @ new" "\<forall>u \<in> set new. allowed_request E w0 u"
    and m: "\<forall>p. path_exists w0 p \<longrightarrow> path_exists w p"
    unfolding no_refetch_def by blast
  have "requests w' = requests w0 @ (new @ replicate k u)" using r n(1) by simp
  moreover have "\<forall>v \<in> set (new @ replicate k u). allowed_request E w0 v" using n(2) a by auto
  moreover have "path_exists w p \<Longrightarrow> path_exists w' p" for p
    using f d by (rule path_exists_mono)
  then have "\<forall>p. path_exists w0 p \<longrightarrow> path_exists w' p" using m by blast
  ultimately show ?thesis unfolding no_refetch_def by blast
qed

lemma no_refetch_do_task:
  assumes inv: "no_refetch E w0 w"
  shows "no_refetch E w0 (snd (do_task (worker_of kind E) t w))"
proof -
  let ?w' = "snd (do_task (worker_of kind E) t w)"
  let ?a = "abspath_join E (directory E) (task_path kind t)"
  from do_task_world [of kind E t w] obtain k where
    k: "requests ?w' = requests w @ replicate k (url E @ ''/'' @ task_path kind t)"
      "path_exists w ?a \<and> \<not> (kind = RecursiveDownloadWorker \<and> endswith t ''/'') \<longrightarrow> k = 0"
      "dom (files w) \<subseteq> dom (files ?w')" "dirs w \<subseteq> dirs ?w'" by blast
  from inv have m: "path_exists w0 ?a \<longrightarrow> path_exists w ?a" unfolding no_refetch_def by blast
  have "allowed_request E w0 (url E @ ''/'' @ task_path kind t)" if "k \<noteq> 0"
  proof -
    from that k(2) have "\<not> path_exists w ?a \<or> kind = RecursiveDownloadWorker \<and> endswith t ''/''"
      by blast
    with m have "\<not> path_exists w0 ?a \<or> kind = RecursiveDownloadWorker \<and> endswith t ''/''"
      by blast
    then show ?thesis unfolding allowed_request_def by blast
  qed
  with inv k(1,3,4) show ?thesis by (rule no_refetch_requests)
qed

lemma collect_world_inv:
  assumes step: "\<And>t w. Q w \<Longrightarrow> Q (snd (do_task W t w))"
  shows "Q (world s) \<Longrightarrow> Q (world (state_of (collect fuel W sched n s)))"
proof (induction fuel arbitrary: s n)
  case 0
  then show ?case by simp
next
  case (Suc fuel)
  show ?case
  proof (cases "num_pending_tasks s > 0 \<and> \<not> (alive s = 0 \<or> pending_tasks s = [])")
    case False
    then show ?thesis using Suc.prems by auto
  next
    case True
    define i where "i = sched n mod min (alive s) (length (pending_tasks s))"
    obtain result w where r: "do_task W (pending_tasks s ! i) (world s) = (result, w)" by fastforce
    from step [OF Suc.prems, of "pending_tasks s ! i"] r have Qw: "Q w" by simp
    define s1 where "s1 = s\<lparr>pending_tasks := take i (pending_tasks s) @ drop (Suc i) (pending_tasks s),
                      executed := executed s @ [pending_tasks s ! i],
                      world := w\<rparr>"
    show ?thesis
    proof (cases result)
      case None
      have "collect (Suc fuel) W sched n s = collect fuel W sched (Suc n) (s1\<lparr>alive := alive s - 1\<rparr>)"
        using True r None by (simp add: Let_def i_def [symmetric] s1_def)
      then show ?thesis using Suc.IH [of "s1\<lparr>alive := alive s - 1\<rparr>"] Qw by (simp add: s1_def)
    next
      case (Some task_result)
      let ?s2 = "fold enqueue task_result (s1\<lparr>num_pending_tasks := num_pending_tasks s - 1\<rparr>)"
      have c: "collect (Suc fuel) W sched n s = collect fuel W sched (Suc n) ?s2"
        using True r Some by (simp add: Let_def i_def [symmetric] s1_def)
      have "world ?s2 = w"
        using fold_enqueue [of task_result "s1\<lparr>num_pending_tasks := num_pending_tasks s - 1\<rparr>"]
        by (auto simp: s1_def)
      then show ?thesis using Suc.IH [of ?s2] Qw c by simp
    qed
  qed
qed

lemma process_tasks_world_inv:
  assumes step: "\<And>t w. Q w \<Longrightarrow> Q (snd (do_task W t w))"
    and start: "\<And>w. Q w \<Longrightarrow> Q (init W w)"
    and Q: "Q w"
  shows "Q (world (state_of (process_tasks fuel W jobs sched tasks D w)))"
proof (cases "tasks = []")
  case True
  then show ?thesis using Q by (simp add: process_tasks_def empty_pool_def)
next
  case False
  define s0 where "s0 = launch W jobs (fold enqueue tasks ((empty_pool w)\<lparr>tasks_seen := D\<rparr>))"
  have "Q ((init W ^^ k) w)" for k by (induction k) (simp_all add: Q start)
  moreover have "world (fold enqueue tasks ((empty_pool w)\<lparr>tasks_seen := D\<rparr>)) = w"
    using fold_enqueue [of tasks "(empty_pool w)\<lparr>tasks_seen := D\<rparr>"] by (auto simp: empty_pool_def)
  ultimately have "Q (world s0)" by (simp add: s0_def launch_def)
  then have "Q (world (state_of (collect fuel W sched 0 s0)))"
    using step by (rule collect_world_inv [where Q = Q and W = W, rotated])
  then show ?thesis using False
    by (cases "collect fuel W sched 0 s0") (simp_all add: process_tasks_def s0_def [symmetric])
qed

lemma run_pool_no_refetch:
  assumes "no_refetch E w0 w"
  shows "no_refetch E w0 (snd (run_pool fuel sched kind E jobs tasks D w))"
proof -
  have i: "init (worker_of kind E) = session_init" by (cases kind) simp_all
  have "no_refetch E w0 (world (state_of (process_tasks fuel (worker_of kind E) jobs sched tasks D w)))"
  proof (rule process_tasks_world_inv [where Q = "no_refetch E w0"])
    show "no_refetch E w0 (snd (do_task (worker_of kind E) t w))" if "no_refetch E w0 w" for t w
      using that by (rule no_refetch_do_task)
    show "no_refetch E w0 (init (worker_of kind E) w)" if "no_refetch E w0 w" for w
      unfolding i using that by (rule no_refetch_quiet) simp_all
    show "no_refetch E w0 w" by (rule assms)
  qed
  then show ?thesis
    by (cases "process_tasks fuel (worker_of kind E) jobs sched tasks D w") (simp_all add: run_pool_def)
qed

lemma url_get_loop_world:
  "\<exists>k. k \<le> 5 - cnt \<and> (cnt < 5 \<longrightarrow> 1 \<le> k)
       \<and> requests (snd (url_get_loop E u cnt resp w)) = requests w @ replicate k u
       \<and> files (snd (url_get_loop E u cnt resp w)) = files w
       \<and> dirs (snd (url_get_loop E u cnt resp w)) = dirs w
       \<and> stderr (snd (url_get_loop E u cnt resp w)) = stderr w
       \<and> (cnt < 5 \<or> resp \<noteq> None \<longrightarrow> fst (url_get_loop E u cnt resp w) \<noteq> None)"
proof (induction E u cnt resp w rule: url_get_loop.induct)
  case (1 E u cnt resp w)
  let ?w0 = "printf (''[-] Testing '' @ u @ '' '') w"
  let ?r = "server E (requests w) u"
  let ?w1 = "printf (''['' @ str_int (status_code ?r) @ '']\<newline>'') (snd (http_get E u ?w0))"
  show ?case
  proof (cases "cnt < 5")
    case False
    then have "url_get_loop E u cnt resp w = (resp, w)"
      by (subst url_get_loop.simps) simp
    then show ?thesis using False by simp
  next
    case True
    show ?thesis
    proof (cases "status_code ?r = 403")
      case r403: True
      let ?w2 = "sleep 10 ?w1"
      have eq: "url_get_loop E u cnt resp w = url_get_loop E u (cnt + 1) (Some ?r) ?w2"
        using True r403 by (subst url_get_loop.simps) (simp add: Let_def http_get_def)
      from "1.IH" [OF True refl refl refl, of ?r "snd (http_get E u ?w0)" ?w1] r403
      obtain k where k: "k \<le> 5 - (cnt + 1)"
        "requests (snd (url_get_loop E u (cnt + 1) (Some ?r) ?w2)) = requests ?w2 @ replicate k u"
        "files (snd (url_get_loop E u (cnt + 1) (Some ?r) ?w2)) = files ?w2"
        "dirs (snd (url_get_loop E u (cnt + 1) (Some ?r) ?w2)) = dirs ?w2"
        "stderr (snd (url_get_loop E u (cnt + 1) (Some ?r) ?w2)) = stderr ?w2"
        "fst (url_get_loop E u (cnt + 1) (Some ?r) ?w2) \<noteq> None"
        by (auto simp: http_get_def)
      have "Suc k \<le> 5 - cnt" using k(1) True by simp
      moreover have "requests (snd (url_get_loop E u cnt resp w)) = requests w @ replicate (Suc k) u"
        unfolding eq k(2) by (simp add: replicate_append_same)
      ultimately show ?thesis using k(3-6) unfolding eq by (intro exI [of _ "Suc k"]) simp
    next
      case False
      have eq: "url_get_loop E u cnt resp w = (Some ?r, ?w1)"
        using True False by (subst url_get_loop.simps) (simp add: Let_def http_get_def)
      have "(1::nat) \<le> 5 - cnt" using True by simp
      then show ?thesis unfolding eq by (intro exI [of _ 1]) auto
    qed
  qed
qed

lemma url_get_world:
  assumes "url_get E u w = (resp, w')"
  shows "\<exists>k. 1 \<le> k \<and> k \<le> 5 \<and> requests w' = requests w @ replicate k u"
    and "files w' = files w" and "dirs w' = dirs w" and "stderr w' = stderr w"
    and "resp \<noteq> None"
  using url_get_loop_world [of 0 E u None w] assms unfolding url_get_def by auto

lemma no_refetch_printf [simp]: "no_refetch E w0 (printf l w) = no_refetch E w0 w"
  by (simp add: no_refetch_def path_exists_def)

lemma no_refetch_printf_stderr [simp]: "no_refetch E w0 (printf_stderr l w) = no_refetch E w0 w"
  by (simp add: no_refetch_def path_exists_def)

lemma run_pool_no_refetch_pair:
  "run_pool fuel sched kind E jobs tasks D w = (b, w') \<Longrightarrow> no_refetch E w0 w \<Longrightarrow> no_refetch E w0 w'"
  using run_pool_no_refetch [of E w0 w fuel sched kind jobs tasks D] by simp

lemma fetch_without_listing_no_refetch:
  assumes "no_refetch E w0 w"
  shows "no_refetch E w0 (snd (fetch_without_listing fuel sched E jobs w))"
proof -
  define w1 where "w1 = printf ''[-] Fetching common files\<newline>'' w"
  obtain b1 v1 where p1: "run_pool fuel sched DownloadWorker E jobs common_files {} w1 = (b1, v1)"
    by fastforce
  have i1: "no_refetch E w0 v1" using p1 assms by (rule run_pool_no_refetch_pair [where w = w1, unfolded w1_def no_refetch_printf, folded w1_def])
  define w2 where "w2 = printf ''[-] Finding refs/\<newline>'' v1"
  obtain b2 v2 where p2: "run_pool fuel sched FindRefsWorker E jobs ref_files {} w2 = (b2, v2)"
    by fastforce
  have "no_refetch E w0 w2" using i1 by (simp add: w2_def)
  with p2 have i2: "no_refetch E w0 v2" by (rule run_pool_no_refetch_pair)
  define w3 where "w3 = printf ''[-] Finding packs\<newline>'' v2"
  define info where "info = abspath_join E (directory E) ''.git/objects/info/packs''"
  define tasks where "tasks = (case files w3 info of
                     None \<Rightarrow> []
                   | Some info_packs \<Rightarrow> pack_tasks (findall_packs info_packs))"
  obtain b3 v3 where p3: "run_pool fuel sched DownloadWorker E jobs tasks {} w3 = (b3, v3)"
    by fastforce
  have "no_refetch E w0 w3" using i2 by (simp add: w3_def)
  with p3 have i3: "no_refetch E w0 v3" by (rule run_pool_no_refetch_pair)
  define w4 where "w4 = printf ''[-] Finding objects\<newline>'' v3"
  obtain objs packed_objs where fo: "find_objects E w4 = (objs, packed_objs)" by fastforce
  define w5 where "w5 = printf ''[-] Fetching objects\<newline>'' w4"
  obtain b4 v4 where p4: "run_pool fuel sched FindObjectsWorker E jobs objs packed_objs w5 = (b4, v4)"
    by fastforce
  have "no_refetch E w0 w5" using i3 by (simp add: w5_def w4_def)
  with p4 have i4: "no_refetch E w0 v4" by (rule run_pool_no_refetch_pair)
  have "snd (fetch_without_listing fuel sched E jobs w) \<in>
      {v1, v2, w3, v3, v4, printf (''[-] Please run \"git checkout .\" in '' @ directory E @ ''\<newline>'') v4}"
    unfolding fetch_without_listing_def
    by (simp add: Let_def w1_def [symmetric] p1 w2_def [symmetric] p2 w3_def [symmetric]
        info_def [symmetric] tasks_def [symmetric] p3 w4_def [symmetric] fo w5_def [symmetric] p4)
  then show ?thesis using i1 i2 i3 i4 \<open>no_refetch E w0 w3\<close> by auto
qed













section \<open>Results about the orchestrator\<close>

lemma url_get_no_refetch:
  assumes g: "url_get E u w = (resp, w')" and inv: "no_refetch E w0 w"
    and u: "u = url E @ ''/.git/HEAD'' \<or> u = url E @ ''/.git/''"
  shows "no_refetch E w0 w'"
proof -
  from url_get_world [OF g] obtain k where
    k: "requests w' = requests w @ replicate k u" and f: "files w' = files w" and d: "dirs w' = dirs w"
    by blast
  have a: "allowed_request E w0 u" using u unfolding allowed_request_def by blast
  show ?thesis by (rule no_refetch_requests [OF inv k]) (simp_all add: f d a)
qed

lemma fetch_after_probe_no_refetch:
  assumes "no_refetch E w0 w"
  shows "no_refetch E w0 (snd (fetch_after_probe fuel sched E jobs w))"
proof -
  obtain resp w1 where g: "url_get E (url E @ ''/.git/'') w = (resp, w1)" by fastforce
  from g assms have i1: "no_refetch E w0 w1" by (rule url_get_no_refetch) simp
  from url_get_world(5) [OF g] obtain response where r: "resp = Some response" by blast
  define w2 where "w2 = printf ''[-] Fetching .git recursively\<newline>'' w1"
  obtain b v where p: "run_pool fuel sched RecursiveDownloadWorker E jobs [''.git/'', ''.gitignore''] {} w2 = (b, v)"
    by fastforce
  have "no_refetch E w0 w2" using i1 by (simp add: w2_def)
  with p have i2: "no_refetch E w0 v" by (rule run_pool_no_refetch_pair)
  have "snd (fetch_after_probe fuel sched E jobs w) \<in>
      {v, printf (''[-] Please run  \"git checkout .\" in '' @ directory E @ ''\<newline>'') v,
       snd (fetch_without_listing fuel sched E jobs w1)}"
    unfolding fetch_after_probe_def
    by (simp add: Let_def g r w2_def [symmetric] p)
  then show ?thesis using i2 fetch_without_listing_no_refetch [OF i1, of fuel sched jobs] by auto
qed

lemma fetch_git_no_refetch:
  "no_refetch (E0\<lparr>url := base_url (url E0)\<rparr>) w0 (snd (fetch_git fuel sched E0 jobs w0))"
proof -
  let ?E = "E0\<lparr>url := base_url (url E0)\<rparr>"
  obtain resp w1 where g: "url_get ?E (url ?E @ ''/.git/HEAD'') w0 = (resp, w1)" by fastforce
  from g no_refetch_refl have i1: "no_refetch ?E w0 w1" by (rule url_get_no_refetch) simp
  from url_get_world(5) [OF g] obtain response where r: "resp = Some response" by blast
  have "snd (fetch_git fuel sched E0 jobs w0) \<in>
      {w0, printf_stderr (''error: '' @ url ?E @ ''/.git/HEAD does not exist\<newline>'') w1,
       printf_stderr (''error: '' @ url ?E @ ''/.git/HEAD is not a git HEAD file\<newline>'') w1,
       snd (fetch_after_probe fuel sched ?E jobs w1)}"
    unfolding fetch_git_def using g r by (simp add: Let_def)
  then show ?thesis
    using i1 fetch_after_probe_no_refetch [OF i1, of fuel sched jobs] no_refetch_refl [of ?E w0]
    by auto
qed

text \<open>
  Claim C7. Whatever is on disk when the tool starts (in particular what an earlier run
  against the same URL and directory left there), every GET request of the run is the
  probe of \<open>.git/HEAD\<close>, the probe of the listing \<open>.git/\<close>, or the request of a task whose
  path was not on disk at the start; the directory requests of the recursive crawl
  (tasks ending in \<open>/\<close>) are no files and are sent again. So no file already present is
  requested a second time.
\<close>

theorem no_get_for_file_on_disk:
  assumes "u \<in> set (drop (length (requests w0)) (requests (snd (fetch_git fuel sched E0 jobs w0))))"
  shows "u = base_url (url E0) @ ''/.git/HEAD'' \<or> u = base_url (url E0) @ ''/.git/''
     \<or> (\<exists>kind t. u = base_url (url E0) @ ''/'' @ task_path kind t
           \<and> (\<not> path_exists w0 (abspath_join E0 (directory E0) (task_path kind t))
               \<or> kind = RecursiveDownloadWorker \<and> endswith t ''/''))"
proof -
  let ?E = "E0\<lparr>url := base_url (url E0)\<rparr>"
  from fetch_git_no_refetch [of E0 w0 fuel sched jobs] obtain new where
    n: "requests (snd (fetch_git fuel sched E0 jobs w0)) = requests w0 @ new"
      "\<forall>u \<in> set new. allowed_request ?E w0 u"
    unfolding no_refetch_def by blast
  from assms have "u \<in> set new" unfolding n(1) by simp
  with n(2) have "allowed_request ?E w0 u" by blast
  then show ?thesis unfolding allowed_request_def by simp
qed

theorem no_get_for_file_on_disk_witness:
  "''http://host/.git/index''
     \<in> set (drop (length (requests example_disk))
              (requests (snd (fetch_git 30 fifo (example_env ref_site) 1 example_disk))))
   \<and> ''http://host/.git/config''
     \<notin> set (requests (snd (fetch_git 30 fifo (example_env ref_site) 1 example_disk)))
   \<and> path_exists example_disk ''/out/.git/config''
   \<and> (\<exists>kind t. ''http://host/.git/index'' = ''http://host/'' @ task_path kind t
         \<and> (\<not> path_exists example_disk (''/out/'' @ task_path kind t)
             \<or> kind = RecursiveDownloadWorker \<and> endswith t ''/''))"
proof -
  have mc: "''http://host/.git/index''
     \<in> set (drop (length (requests example_disk))
              (requests (snd (fetch_git 30 fifo (example_env ref_site) 1 example_disk))))
     \<and> ''http://host/.git/config''
     \<notin> set (requests (snd (fetch_git 30 fifo (example_env ref_site) 1 example_disk)))"
    by code_simp
  then have m: "''http://host/.git/index''
     \<in> set (drop (length (requests example_disk))
              (requests (snd (fetch_git 30 fifo (example_env ref_site) 1 example_disk))))" ..
  have p: "path_exists example_disk ''/out/.git/config''"
    by (simp add: path_exists_def example_disk_def)
  have b: "base_url (url (example_env ref_site)) = ''http://host''" by code_simp
  from no_get_for_file_on_disk [OF m]
  have "\<exists>kind t. ''http://host/.git/index'' = ''http://host/'' @ task_path kind t
         \<and> (\<not> path_exists example_disk (''/out/'' @ task_path kind t)
             \<or> kind = RecursiveDownloadWorker \<and> endswith t ''/'')"
    unfolding b by (simp add: example_env_def)
  with mc p show ?thesis by blast
qed

text \<open>
  Claim C8. If the answer that the probe of \<open><base>/.git/HEAD\<close> ends with (after its
  repetitions on 403) has a status other than 200, or a body that does not begin with
  \<open>ref:\<close>, then \<open>fetch_git\<close> returns 1, the exit status of the program, after writing one
  error message to the error stream; the only requests sent are the one to five
  requests of the probe itself, and the disk is unchanged.
\<close>

theorem fetch_git_probe_failure:
  assumes pre: "directory E0 \<in> dirs w0" "1 \<le> jobs" "1 \<le> retry E0" "1 \<le> timeout E0"
    and probe: "url_get (E0\<lparr>url := base_url (url E0)\<rparr>) (base_url (url E0) @ ''/.git/HEAD'') w0
                  = (Some response, w1)"
    and fail: "status_code response \<noteq> 200 \<or> \<not> startswith (resp_text response) ''ref:''"
  shows "fst (fetch_git fuel sched E0 jobs w0) = Exit 1
     \<and> stderr (snd (fetch_git fuel sched E0 jobs w0)) =
         stderr w0 @ [''error: '' @ base_url (url E0) @
            (if status_code response \<noteq> 200 then ''/.git/HEAD does not exist\<newline>''
             else ''/.git/HEAD is not a git HEAD file\<newline>'')]
     \<and> requests (snd (fetch_git fuel sched E0 jobs w0)) = requests w1
     \<and> (\<exists>k. 1 \<le> k \<and> k \<le> 5
            \<and> requests w1 = requests w0 @ replicate k (base_url (url E0) @ ''/.git/HEAD''))
     \<and> files (snd (fetch_git fuel sched E0 jobs w0)) = files w0
     \<and> dirs (snd (fetch_git fuel sched E0 jobs w0)) = dirs w0"
proof -
  let ?E = "E0\<lparr>url := base_url (url E0)\<rparr>"
  have g: "url_get ?E (url ?E @ ''/.git/HEAD'') w0 = (Some response, w1)" using probe by simp
  note w = url_get_world [OF probe]
  have e: "fetch_git fuel sched E0 jobs w0 =
      (Exit 1, printf_stderr (''error: '' @ base_url (url E0) @
            (if status_code response \<noteq> 200 then ''/.git/HEAD does not exist\<newline>''
             else ''/.git/HEAD is not a git HEAD file\<newline>'')) w1)"
    unfolding fetch_git_def using pre g fail by (auto simp add: Let_def)
  have s: "stderr (printf_stderr l w1) = stderr w0 @ [l]" for l
    using w(4) by (simp add: printf_stderr_def)
  show ?thesis unfolding e using w(1-3) by (simp add: s)
qed

theorem fetch_git_probe_failure_witness:
  "fst (fetch_git 0 fifo (example_env broken_site) 1 example_disk) = Exit 1
   \<and> stderr (snd (fetch_git 0 fifo (example_env broken_site) 1 example_disk))
       = [''error: http://host/.git/HEAD is not a git HEAD file\<newline>'']
   \<and> requests (snd (fetch_git 0 fifo (example_env broken_site) 1 example_disk))
       = [''http://host/.git/HEAD'']"
proof -
  let ?E = "example_env broken_site"
  let ?g = "url_get (?E\<lparr>url := base_url (url ?E)\<rparr>) (base_url (url ?E) @ ''/.git/HEAD'') example_disk"
  obtain resp w1 where g0: "?g = (resp, w1)" by fastforce
  from url_get_world(5) [OF g0] obtain response where resp: "resp = Some response" by blast
  have "status_code (the (fst ?g)) = 200 \<and> \<not> startswith (resp_text (the (fst ?g))) ''ref:''
      \<and> requests (snd ?g) = [''http://host/.git/HEAD'']" by code_simp
  then have s: "status_code response = 200" and fail: "\<not> startswith (resp_text response) ''ref:''"
    and r: "requests w1 = [''http://host/.git/HEAD'']"
    unfolding g0 resp by simp_all
  have b: "base_url (url ?E) = ''http://host''" by code_simp
  have g: "?g = (Some response, w1)" using g0 resp by simp
  have pre: "directory ?E \<in> dirs example_disk" "1 \<le> (1::nat)" "1 \<le> retry ?E" "1 \<le> timeout ?E"
    by (simp_all add: example_env_def example_disk_def)
  from fail have fail': "status_code response \<noteq> 200 \<or> \<not> startswith (resp_text response) ''ref:''" ..
  from fetch_git_probe_failure [OF pre g fail', of 0 fifo] r s
  show ?thesis unfolding b by (simp add: example_disk_def)
qed

end
